theory Spec2Isabelle
  imports Complex_Main "HOL-Library.Word" "HOL-Library.Sublist" "HOL-Library.AList"
begin

unbundle bit_operations_syntax

chapter \<open>IDIOMS: a shallow embedding of the index, the router and the fault manager\<close>

section \<open>Strings and hashing\<close>

text \<open>
  A \<^verbatim>\<open>std::string\<close> is a list of bytes. \<^verbatim>\<open>std::to_string\<close> of an \<^verbatim>\<open>int\<close> or of a
  \<^verbatim>\<open>uint32_t\<close> prints the decimal digits, with a minus sign for a negative value.
\<close>

definition digit_char :: "nat \<Rightarrow> char" where
  "digit_char d = char_of (48 + d)"

fun nat_to_string :: "nat \<Rightarrow> string" where
  "nat_to_string n =
     (if n < 10 then [digit_char n] else nat_to_string (n div 10) @ [digit_char (n mod 10)])"

definition to_string :: "int \<Rightarrow> string" where
  "to_string i = (if i < 0 then CHR ''-'' # nat_to_string (nat (- i)) else nat_to_string (nat i))"

text \<open>
  \<^verbatim>\<open>a.find(b) == 0\<close>: \<open>b\<close> occurs in \<open>a\<close> at position 0, that is, \<open>b\<close> is a prefix of \<open>a\<close>
  (the empty string is found at position 0 of every string).
\<close>

definition starts_with :: "string \<Rightarrow> string \<Rightarrow> bool" where
  "starts_with a b = prefix b a"

text \<open>
  FNV-1a. \<^verbatim>\<open>hash ^ c\<close> promotes the \<^verbatim>\<open>char\<close> to \<^verbatim>\<open>int\<close> before it is widened to the
  unsigned hash type; \<^verbatim>\<open>char\<close> is signed on the platforms the repository targets, so
  the byte is sign-extended. The multiplication wraps at the width of the word.
\<close>

definition char_s64 :: "char \<Rightarrow> 64 word" where
  "char_s64 c = scast (of_char c :: 8 word)"

definition char_s32 :: "char \<Rightarrow> 32 word" where
  "char_s32 c = scast (of_char c :: 8 word)"

definition hash64 :: "string \<Rightarrow> 64 word" where
  "hash64 key = foldl (\<lambda>h c. (h XOR char_s64 c) * 1099511628211) (14695981039346656037 + 0) key"

definition hash32 :: "string \<Rightarrow> 32 word" where
  "hash32 key = foldl (\<lambda>h c. (h XOR char_s32 c) * 16777619) 2166136261 key"

section \<open>String tests of the servers\<close>

text \<open>
  \<^verbatim>\<open>s.find(t) != npos\<close>: \<open>t\<close> occurs in \<open>s\<close> at some position.
\<close>

fun contains :: "string \<Rightarrow> string \<Rightarrow> bool" where
  "contains [] t = (t = [])"
| "contains (c # s) t = (prefix t (c # s) \<or> contains s t)"

text \<open>
  \<^verbatim>\<open>s.length() >= t.length() && s.compare(s.length() - t.length(), t.length(), t) == 0\<close>:
  the last \<open>length t\<close> bytes of \<open>s\<close> are \<open>t\<close>.
\<close>

definition ends_with :: "string \<Rightarrow> string \<Rightarrow> bool" where
  "ends_with s t = (length t \<le> length s \<and> drop (length s - length t) s = t)"

text \<open>
  The key portion of a query is the part before the first \<^verbatim>\<open>=\<close>, or the whole string
  when there is none; the value portion is what follows the first \<^verbatim>\<open>=\<close>, or \<^verbatim>\<open>*\<close> when
  there is none.
\<close>

definition keyPortion :: "string \<Rightarrow> string" where
  "keyPortion query = takeWhile (\<lambda>c. c \<noteq> CHR ''='') query"

definition valuePortion :: "string \<Rightarrow> string" where
  "valuePortion query =
     (if CHR ''='' \<in> set query then drop 1 (dropWhile (\<lambda>c. c \<noteq> CHR ''='') query) else ''*'')"

text \<open>\<^verbatim>\<open>key.substr(i)\<close> for every \<open>i\<close> from 0 to \<open>length key - 1\<close>, in that order.\<close>

definition substrings_from :: "string \<Rightarrow> string list" where
  "substrings_from key = map (\<lambda>i. drop i key) [0..<length key]"

section \<open>Consistent hash ring (dart.cpp, src4/dart/DART.cpp)\<close>

record ConsistentHash =
  ch_numServers :: int
  ring :: "(64 word \<times> int) list"

definition RING_SIZE :: nat where
  "RING_SIZE = 40"

text \<open>
  The entries in the order the two nested loops of the constructor push them, and the
  constructor. \<^verbatim>\<open>std::sort\<close> orders by position only; the order it leaves among entries
  of equal position is unspecified, and the model takes the stable one.
\<close>

definition ring_entries :: "int \<Rightarrow> (64 word \<times> int) list" where
  "ring_entries numServers =
     concat (map (\<lambda>server.
               map (\<lambda>i. (hash64 (''server'' @ to_string (int server) @ ''_'' @ to_string (int i)),
                        int server))
                   [0..<RING_SIZE])
             [0..<nat numServers])"

definition sortRing :: "(64 word \<times> int) list \<Rightarrow> (64 word \<times> int) list" where
  "sortRing r = sort_key fst r"

definition ConsistentHash_init :: "int \<Rightarrow> ConsistentHash" where
  "ConsistentHash_init numServers =
     \<lparr> ch_numServers = numServers, ring = sortRing (ring_entries numServers) \<rparr>"

text \<open>
  \<^verbatim>\<open>std::lower_bound\<close> with the comparison on positions: the index of the first entry
  whose position is not below \<open>keyHash\<close>, or the length of the ring when there is none.
  The wrap-around to \<^verbatim>\<open>ring.begin()\<close> follows it in both callers.
\<close>

definition lower_bound :: "(64 word \<times> int) list \<Rightarrow> 64 word \<Rightarrow> nat" where
  "lower_bound r keyHash = length (takeWhile (\<lambda>e. fst e < keyHash) r)"

definition ring_start :: "(64 word \<times> int) list \<Rightarrow> string \<Rightarrow> nat" where
  "ring_start r key =
     (let it = lower_bound r (hash64 key) in if it = length r then 0 else it)"

definition getServer :: "ConsistentHash \<Rightarrow> string \<Rightarrow> int" where
  "getServer ch key =
     (if ring ch = [] then 0 else snd (ring ch ! ring_start (ring ch) key))"

text \<open>
  The \<^verbatim>\<open>while\<close> loop of \<^verbatim>\<open>getReplicaServers\<close>. \<open>bound\<close> is
  \<^verbatim>\<open>std::min(replicationFactor + 1, numServers)\<close>, an \<^verbatim>\<open>int\<close> that the comparison with
  \<^verbatim>\<open>uniqueServers.size()\<close> converts to \<^verbatim>\<open>size_t\<close>. The iterator is an index into the ring.
  The loop need not terminate on every ring, so not returning is the value \<open>None\<close>.
\<close>

definition to_size_t :: "int \<Rightarrow> int" where
  "to_size_t i = i mod 2 ^ 64"

partial_function (option) replicaLoop ::
  "(64 word \<times> int) list \<Rightarrow> int \<Rightarrow> nat \<Rightarrow> int set \<Rightarrow> int list \<Rightarrow> int list option" where
  "replicaLoop r bound it uniqueServers servers =
     (if int (card uniqueServers) < to_size_t bound then
        (let it1 = (if Suc it = length r then 0 else Suc it) in
         if snd (r ! it1) \<notin> uniqueServers
         then replicaLoop r bound it1 (insert (snd (r ! it1)) uniqueServers)
                (servers @ [snd (r ! it1)])
         else replicaLoop r bound it1 uniqueServers servers)
      else Some servers)"

text \<open>
  \<^verbatim>\<open>getReplicaServers(key, replicationFactor)\<close> of src4/dart/DART.cpp.
  \<^verbatim>\<open>replicationFactor + 1\<close> is a signed 32-bit addition: at \<^verbatim>\<open>INT_MAX\<close> it overflows, which
  is undefined behaviour and is given no result here.
\<close>

definition INT_MAX :: int where
  "INT_MAX = 2147483647"

definition INT_MIN :: int where
  "INT_MIN = - 2147483648"

definition getReplicaServers :: "ConsistentHash \<Rightarrow> string \<Rightarrow> int \<Rightarrow> int list option" where
  "getReplicaServers ch key replicationFactor =
     (if ring ch = [] \<or> replicationFactor \<le> 0 then Some []
      else if replicationFactor = INT_MAX then None
      else
        (let it = ring_start (ring ch) key;
             primary = snd (ring ch ! it)
         in replicaLoop (ring ch) (min (replicationFactor + 1) (ch_numServers ch)) it
              {primary} [primary]))"


text \<open>
  \<^verbatim>\<open>getReplicaServers\<close> of dart.cpp is the same function with one more statement before
  the guard: \<^verbatim>\<open>uniqueServers.reserve(replicationFactor + 1)\<close>. The argument is converted
  to \<^verbatim>\<open>size_t\<close>, and \<^verbatim>\<open>reserve\<close> allocates an array of at least that many buckets. The
  allocation throws (\<^verbatim>\<open>std::bad_alloc\<close> or the \<^verbatim>\<open>std::bad_array_new_length\<close> derived from it)
  when the count is above the allocator's \<^verbatim>\<open>max_size()\<close>, which is
  \<^verbatim>\<open>PTRDIFF_MAX / sizeof(void*)\<close>, and otherwise when the memory is not there. What memory
  there is belongs to the environment of the call: \<open>mem\<close> is the largest count for which
  the allocation succeeds. The function has no \<^verbatim>\<open>try\<close>, so the exception leaves it.
  The result is \<open>None\<close> where there is none (undefined behaviour, or a loop that does not
  end), \<open>Some (Inl e)\<close> for the exception \<open>e\<close> and \<open>Some (Inr servers)\<close> for a returned vector.
\<close>

datatype exception = bad_alloc

definition MAX_BUCKETS :: nat where
  "MAX_BUCKETS = (2 ^ 63 - 1) div 8"

definition reserve_throws :: "nat \<Rightarrow> int \<Rightarrow> bool" where
  "reserve_throws mem count = (int (min mem MAX_BUCKETS) < to_size_t count)"

definition dart_getReplicaServers ::
  "nat \<Rightarrow> ConsistentHash \<Rightarrow> string \<Rightarrow> int \<Rightarrow> (exception + int list) option" where
  "dart_getReplicaServers mem ch key replicationFactor =
     (if replicationFactor = INT_MAX then None
      else if reserve_throws mem (replicationFactor + 1) then Some (Inl bad_alloc)
      else if ring ch = [] \<or> replicationFactor \<le> 0 then Some (Inr [])
      else
        (let it = ring_start (ring ch) key;
             primary = snd (ring ch ! it)
         in map_option Inr
              (replicaLoop (ring ch) (min (replicationFactor + 1) (ch_numServers ch)) it
                 {primary} [primary])))"
section \<open>DART router: the pool of virtual nodes (src4/dart/DART.cpp, dart.cpp)\<close>

text \<open>\<^verbatim>\<open>class VirtualNode { uint32_t id; std::string prefix; }\<close>, named by its getters.\<close>

record VirtualNode =
  getId :: "32 word"
  getPrefix :: string

definition containsKey :: "VirtualNode \<Rightarrow> string \<Rightarrow> bool" where
  "containsKey vnode key = starts_with key (getPrefix vnode)"

definition NUM_VIRTUAL_NODES :: nat where
  "NUM_VIRTUAL_NODES = 256"

text \<open>
  The list \<^verbatim>\<open>prefixes\<close> of \<^verbatim>\<open>initializeVirtualNodes\<close>: the three character loops, the special
  characters, the twenty two-character prefixes_pool and the empty prefix, in that order.
\<close>

definition specialChars :: string where
  "specialChars = ''_-./,:;!@#$%^&*()''"

definition commonPrefixes :: "string list" where
  "commonPrefixes =
     [''St'', ''Fi'', ''Da'', ''Ti'', ''Us'', ''Pr'', ''Sp'', ''Ke'', ''Va'', ''Ex'',
      ''Co'', ''In'', ''Re'', ''De'', ''Tr'', ''Lo'', ''Po'', ''Pa'', ''Mo'', ''Se'']"

definition prefixes_pool :: "string list" where
  "prefixes_pool =
     map (\<lambda>c. [c]) ''abcdefghijklmnopqrstuvwxyz'' @
     map (\<lambda>c. [c]) ''ABCDEFGHIJKLMNOPQRSTUVWXYZ'' @
     map (\<lambda>c. [c]) ''0123456789'' @
     map (\<lambda>c. [c]) specialChars @
     commonPrefixes @
     [[]]"

text \<open>
  The inner \<^verbatim>\<open>for\<close> loop over the prefixes_pool, with its \<^verbatim>\<open>break\<close> once the pool is full;
  every new node takes the current size of the pool as its id.
\<close>

fun addPrefixes :: "VirtualNode list \<Rightarrow> string list \<Rightarrow> VirtualNode list" where
  "addPrefixes virtualNodes [] = virtualNodes"
| "addPrefixes virtualNodes (p # ps) =
     (if length virtualNodes \<ge> NUM_VIRTUAL_NODES then virtualNodes
      else addPrefixes
             (virtualNodes @ [\<lparr> getId = of_nat (length virtualNodes), getPrefix = p \<rparr>]) ps)"

lemma addPrefixes_grows:
  "length virtualNodes \<le> length (addPrefixes virtualNodes ps)"
proof (induction ps arbitrary: virtualNodes)
  case Nil
  then show ?case by simp
next
  case (Cons p ps)
  from Cons [of "virtualNodes @ [\<lparr> getId = of_nat (length virtualNodes), getPrefix = p \<rparr>]"]
  show ?case by simp
qed

lemma addPrefixes_progress:
  assumes "length virtualNodes < NUM_VIRTUAL_NODES"
  shows "length virtualNodes < length (addPrefixes virtualNodes prefixes_pool)"
proof -
  have "prefixes_pool \<noteq> []"
    by (simp add: prefixes_pool_def)
  then obtain p ps where pool: "prefixes_pool = p # ps"
    by (auto simp: neq_Nil_conv)
  show ?thesis
    unfolding pool
    using assms
      addPrefixes_grows [of "virtualNodes @ [\<lparr> getId = of_nat (length virtualNodes), getPrefix = p \<rparr>]" ps]
    by simp
qed

text \<open>The node at position \<open>i\<close> of the vector has id \<open>i\<close> (an invariant of the two loops).\<close>

definition ids_in_order :: "VirtualNode list \<Rightarrow> bool" where
  "ids_in_order vns = (\<forall>i<length vns. getId (vns ! i) = of_nat i)"

text \<open>The outer \<^verbatim>\<open>while (virtualNodes.size() < NUM_VIRTUAL_NODES)\<close> loop.\<close>

function fillVirtualNodes :: "VirtualNode list \<Rightarrow> VirtualNode list" where
  "fillVirtualNodes virtualNodes =
     (if length virtualNodes < NUM_VIRTUAL_NODES
      then fillVirtualNodes (addPrefixes virtualNodes prefixes_pool)
      else virtualNodes)"
  by pat_completeness auto
termination
proof (relation "measure (\<lambda>virtualNodes. NUM_VIRTUAL_NODES - length virtualNodes)")
  show "wf (measure (\<lambda>virtualNodes. NUM_VIRTUAL_NODES - length virtualNodes))"
    by simp
next
  fix virtualNodes :: "VirtualNode list"
  assume "length virtualNodes < NUM_VIRTUAL_NODES"
  then show "(addPrefixes virtualNodes prefixes_pool, virtualNodes)
      \<in> measure (\<lambda>virtualNodes. NUM_VIRTUAL_NODES - length virtualNodes)"
    using addPrefixes_progress [of virtualNodes] by simp
qed

text \<open>
  The router. \<^verbatim>\<open>static_cast<int>\<close> of the product truncates towards zero; the ratio is a
  \<^verbatim>\<open>double\<close>, modelled as a real number.
\<close>

record DARTRouter =
  numServers :: int
  replicationFactor :: int
  serverMap :: ConsistentHash
  virtualNodes :: "VirtualNode list"
  virtualNodeToServer :: "32 word \<rightharpoonup> int"
  serverToVirtualNodes :: "int \<rightharpoonup> 32 word list"

definition truncate_to_int :: "real \<Rightarrow> int" where
  "truncate_to_int x = (if 0 \<le> x then \<lfloor>x\<rfloor> else \<lceil>x\<rceil>)"

text \<open>
  The second loop of \<^verbatim>\<open>initializeVirtualNodes\<close>: every virtual node is assigned the
  server that the ring gives for \<^verbatim>\<open>"vnode_<id>"\<close>.
\<close>

definition assignVirtualNode ::
  "ConsistentHash \<Rightarrow> (32 word \<rightharpoonup> int) \<times> (int \<rightharpoonup> 32 word list) \<Rightarrow> VirtualNode
     \<Rightarrow> (32 word \<rightharpoonup> int) \<times> (int \<rightharpoonup> 32 word list)" where
  "assignVirtualNode ch maps vnode =
     (let key = ''vnode_'' @ nat_to_string (unat (getId vnode));
          serverId = getServer ch key;
          owned = (case snd maps serverId of None \<Rightarrow> [] | Some ids \<Rightarrow> ids)
      in ((fst maps)(getId vnode \<mapsto> serverId), (snd maps)(serverId \<mapsto> owned @ [getId vnode])))"

definition DARTRouter_init :: "int \<Rightarrow> real \<Rightarrow> DARTRouter" where
  "DARTRouter_init n replicationRatio =
     (let ch = ConsistentHash_init n;
          rf = truncate_to_int (real_of_int n * replicationRatio);
          vnodes = fillVirtualNodes [];
          maps = foldl (assignVirtualNode ch) (Map.empty, Map.empty) vnodes
      in \<lparr> numServers = n,
           replicationFactor = (if rf < 1 then 1 else rf),
           serverMap = ch,
           virtualNodes = vnodes,
           virtualNodeToServer = fst maps,
           serverToVirtualNodes = snd maps \<rparr>)"

text \<open>
  \<^verbatim>\<open>getVirtualNodeId\<close>: the first virtual node, in the order of the vector, that contains
  the key; the hash is the fallback. \<^verbatim>\<open>hash(key) % virtualNodes.size()\<close> divides by zero
  on an empty pool, which is undefined behaviour and is given no result.
\<close>

definition getVirtualNodeId :: "DARTRouter \<Rightarrow> string \<Rightarrow> 32 word option" where
  "getVirtualNodeId rt key =
     (case find (\<lambda>vnode. containsKey vnode key) (virtualNodes rt) of
        Some vnode \<Rightarrow> Some (getId vnode)
      | None \<Rightarrow>
          if virtualNodes rt = [] then None
          else Some (of_nat (unat (hash32 key) mod length (virtualNodes rt))))"

section \<open>Popularity tracker (src4/popularity/PopularityTracker.cpp)\<close>

text \<open>
  Scores, the decay factor and the threshold are \<^verbatim>\<open>double\<close>s in the source and real
  numbers here (no rounding, no infinities); the model is meant for a positive
  threshold. A time point of the steady clock is an integer number of milliseconds, the
  unit to which the source casts a difference of time points before it divides by
  \<^verbatim>\<open>1000.0 * 60.0 * 60.0\<close>. A member function that reads the clock takes the time \<open>now\<close>
  as an argument.
\<close>

record PopularityTracker =
  keyPopularity :: "string \<rightharpoonup> real"
  lastAccess :: "string \<rightharpoonup> int"
  decayFactor :: real
  popularityThreshold :: real
  maxReplicationFactor :: int
  baseReplicationFactor :: int

definition PopularityTracker_init :: "int \<Rightarrow> int \<Rightarrow> real \<Rightarrow> real \<Rightarrow> PopularityTracker" where
  "PopularityTracker_init baseReplication maxReplication threshold decay =
     \<lparr> keyPopularity = Map.empty,
       lastAccess = Map.empty,
       decayFactor = decay,
       popularityThreshold = threshold,
       maxReplicationFactor = maxReplication,
       baseReplicationFactor = baseReplication \<rparr>"

definition calculateDecay :: "PopularityTracker \<Rightarrow> string \<Rightarrow> int \<Rightarrow> real" where
  "calculateDecay pt key now =
     (case lastAccess pt key of
        None \<Rightarrow> 1
      | Some t \<Rightarrow>
          (let hoursSinceLastAccess = real_of_int (now - t) / (1000 * 60 * 60)
           in exp (- decayFactor pt * hoursSinceLastAccess)))"

definition updatePopularityWithDecay ::
  "PopularityTracker \<Rightarrow> string \<Rightarrow> real \<Rightarrow> int \<Rightarrow> PopularityTracker" where
  "updatePopularityWithDecay pt key increment now =
     (let decay = calculateDecay pt key now;
          currentPopularity = (case keyPopularity pt key of None \<Rightarrow> 0 | Some v \<Rightarrow> v * decay)
      in pt\<lparr> keyPopularity := (keyPopularity pt)(key \<mapsto> currentPopularity + increment),
             lastAccess := (lastAccess pt)(key \<mapsto> now) \<rparr>)"

text \<open>
  The local \<^verbatim>\<open>actualIncrement\<close> of \<^verbatim>\<open>recordQuery\<close>: the test and the bonus read
  \<^verbatim>\<open>it->second\<close>, the score as it is stored in \<^verbatim>\<open>keyPopularity\<close>.
\<close>

definition actualIncrement :: "PopularityTracker \<Rightarrow> string \<Rightarrow> real \<Rightarrow> real" where
  "actualIncrement pt keyPattern increment =
     (case keyPopularity pt keyPattern of
        None \<Rightarrow> increment
      | Some v \<Rightarrow>
          if v > popularityThreshold pt
          then increment * (1 + log 10 (v / popularityThreshold pt))
          else increment)"

definition recordQuery :: "PopularityTracker \<Rightarrow> string \<Rightarrow> real \<Rightarrow> int \<Rightarrow> PopularityTracker" where
  "recordQuery pt keyPattern increment now =
     updatePopularityWithDecay pt keyPattern (actualIncrement pt keyPattern increment) now"

definition getPopularity :: "PopularityTracker \<Rightarrow> string \<Rightarrow> int \<Rightarrow> real" where
  "getPopularity pt keyPattern now =
     (case keyPopularity pt keyPattern of
        None \<Rightarrow> 0
      | Some v \<Rightarrow> v * calculateDecay pt keyPattern now)"

definition getReplicationFactor :: "PopularityTracker \<Rightarrow> string \<Rightarrow> int \<Rightarrow> int" where
  "getReplicationFactor pt keyPattern now =
     (let popularity = getPopularity pt keyPattern now
      in if popularity < popularityThreshold pt then baseReplicationFactor pt
         else min (baseReplicationFactor pt
                     + truncate_to_int (log 10 (popularity / popularityThreshold pt)))
                  (maxReplicationFactor pt))"

text \<open>
  The increment that claim C5 describes, written from the claim's words: the test and the
  bonus use the effective score, the stored score decayed to the time of the call.
\<close>

definition effectiveIncrement :: "PopularityTracker \<Rightarrow> string \<Rightarrow> real \<Rightarrow> int \<Rightarrow> real" where
  "effectiveIncrement pt keyPattern increment now =
     (let score = getPopularity pt keyPattern now
      in if score > popularityThreshold pt
         then increment * (1 + log 10 (score / popularityThreshold pt))
         else increment)"

section \<open>Adaptive router: recording a query (src4/dart/AdaptiveDARTRouter.cpp)\<close>

text \<open>
  The derived class adds the tracker and the switch to the fields of the base router.
  The constructor hands the tracker the truncated product as its base replication
  factor (without the base router's lower bound of 1).
\<close>

record AdaptiveDARTRouter = DARTRouter +
  popularityTracker :: PopularityTracker
  adaptiveReplicationEnabled :: bool

definition AdaptiveDARTRouter_init ::
  "int \<Rightarrow> real \<Rightarrow> int \<Rightarrow> real \<Rightarrow> real \<Rightarrow> bool \<Rightarrow> AdaptiveDARTRouter" where
  "AdaptiveDARTRouter_init n baseReplicationRatio maxReplication threshold decay enable =
     DARTRouter.extend (DARTRouter_init n baseReplicationRatio)
       (AdaptiveDARTRouter.fields
          (PopularityTracker_init (truncate_to_int (real_of_int n * baseReplicationRatio))
             maxReplication threshold decay)
          enable)"

text \<open>
  \<^verbatim>\<open>AdaptiveDARTRouter::recordQuery(keyPattern)\<close> calls the tracker with one argument, so
  the tracker's default \<^verbatim>\<open>increment = 1.0\<close> applies.
\<close>

definition AdaptiveDARTRouter_recordQuery ::
  "AdaptiveDARTRouter \<Rightarrow> string \<Rightarrow> int \<Rightarrow> AdaptiveDARTRouter" where
  "AdaptiveDARTRouter_recordQuery rt keyPattern now =
     (if adaptiveReplicationEnabled rt
      then rt\<lparr> popularityTracker := recordQuery (popularityTracker rt) keyPattern 1 now \<rparr>
      else rt)"

text \<open>
  The first half of \<^verbatim>\<open>AdaptiveDARTRouter::getDestinationServers\<close>: the parse of the key
  pattern and the recording, which is all the function writes. The local \<^verbatim>\<open>increment\<close>
  is computed as in the source, and as in the source it is not passed on. The second
  half, the dispatch on the shape of the pattern, only reads the router and the tracker
  and is not part of this function of the model.
\<close>

definition getDestinationServers_record ::
  "AdaptiveDARTRouter \<Rightarrow> string \<Rightarrow> int \<Rightarrow> AdaptiveDARTRouter" where
  "getDestinationServers_record rt query now =
     (let keyPattern = keyPortion query
      in if adaptiveReplicationEnabled rt
         then (let increment = (if CHR ''*'' \<notin> set keyPattern then 2 else 1 :: real)
               in AdaptiveDARTRouter_recordQuery rt keyPattern now)
         else rt)"

section \<open>Fault manager (src4/fault/FaultManager.cpp)\<close>

text \<open>
  \<^verbatim>\<open>enum ServerStatus { ACTIVE, SUSPECT, CONFIRMED_DOWN, RECOVERING }\<close>.
  The first enumerator is the value a \<^verbatim>\<open>std::unordered_map<int, ServerStatus>\<close>
  creates when \<^verbatim>\<open>operator[]\<close> meets an unknown rank.
\<close>

datatype ServerStatus = ACTIVE | SUSPECT | CONFIRMED_DOWN | RECOVERING

text \<open>
  The part of the class that the status transitions read and write. Time points of the
  steady clock and the two thresholds are integers in one common unit (milliseconds);
  a default-constructed time point is the epoch, \<open>0\<close>. The mutex is not modelled: each
  member function below runs under the lock from its first to its last statement.
\<close>

record FaultManager =
  isClient :: bool
  serverStatus :: "int \<rightharpoonup> ServerStatus"
  lastHeartbeat :: "int \<rightharpoonup> int"
  timeoutThreshold :: int
  confirmationThreshold :: int

text \<open>The constructor: ranks \<open>1 .. worldSize - 1\<close> start ACTIVE with a heartbeat at \<open>now\<close>.\<close>

definition FaultManager_init :: "int \<Rightarrow> bool \<Rightarrow> int \<Rightarrow> FaultManager" where
  "FaultManager_init worldSize isClientProcess now =
     \<lparr> isClient = isClientProcess,
       serverStatus = (\<lambda>i. if 1 \<le> i \<and> i < worldSize then Some ACTIVE else None),
       lastHeartbeat = (\<lambda>i. if 1 \<le> i \<and> i < worldSize then Some now else None),
       timeoutThreshold = 2000,
       confirmationThreshold = 5000 \<rparr>"

text \<open>\<^verbatim>\<open>serverStatus[rank]\<close> and \<^verbatim>\<open>lastHeartbeat[rank]\<close> as rvalues: the default on a miss.\<close>

definition statusOf :: "FaultManager \<Rightarrow> int \<Rightarrow> ServerStatus" where
  "statusOf fm rank = (case serverStatus fm rank of None \<Rightarrow> ACTIVE | Some s \<Rightarrow> s)"

definition heartbeatOf :: "FaultManager \<Rightarrow> int \<Rightarrow> int" where
  "heartbeatOf fm rank = (case lastHeartbeat fm rank of None \<Rightarrow> 0 | Some t \<Rightarrow> t)"

text \<open>
  \<^verbatim>\<open>initiateRecovery\<close> reads the status map, sends the recovery messages and calls
  \<^verbatim>\<open>updateRouter\<close>, which only prints (the remapping call is commented out in the source).
  It writes neither map, so on this state it is the identity.
\<close>

definition initiateRecovery :: "FaultManager \<Rightarrow> int \<Rightarrow> FaultManager" where
  "initiateRecovery fm failedRank = fm"

text \<open>
  \<^verbatim>\<open>processHeartbeat(serverRank)\<close> at time \<open>now\<close>: the heartbeat time is stored, and a SUSPECT
  or RECOVERING server becomes ACTIVE. Reading \<^verbatim>\<open>serverStatus[serverRank]\<close> creates an
  ACTIVE entry for an unknown rank.
\<close>

definition processHeartbeat :: "FaultManager \<Rightarrow> int \<Rightarrow> int \<Rightarrow> FaultManager" where
  "processHeartbeat fm serverRank now =
     (let fm1 = fm\<lparr> lastHeartbeat := (lastHeartbeat fm)(serverRank \<mapsto> now) \<rparr>;
          st = statusOf fm1 serverRank;
          fm2 = fm1\<lparr> serverStatus := (serverStatus fm1)(serverRank \<mapsto> st) \<rparr>
      in if st = SUSPECT \<or> st = RECOVERING
         then fm2\<lparr> serverStatus := (serverStatus fm2)(serverRank \<mapsto> ACTIVE) \<rparr>
         else fm2)"

text \<open>\<^verbatim>\<open>notifyServerFailure(serverRank)\<close>: the status is overwritten, whatever it was.\<close>

definition notifyServerFailure :: "FaultManager \<Rightarrow> int \<Rightarrow> FaultManager" where
  "notifyServerFailure fm serverRank =
     (let fm1 = fm\<lparr> serverStatus := (serverStatus fm)(serverRank \<mapsto> CONFIRMED_DOWN) \<rparr>
      in if isClient fm1 then initiateRecovery fm1 serverRank else fm1)"

text \<open>
  The body of the loop of \<^verbatim>\<open>checkHeartbeats\<close> for one entry of the status map, given the
  time since that server's last heartbeat.
\<close>

definition checkEntry :: "FaultManager \<Rightarrow> int \<Rightarrow> ServerStatus \<Rightarrow> ServerStatus" where
  "checkEntry fm timeSinceLastHeartbeat status =
     (if status = CONFIRMED_DOWN then status
      else if status = ACTIVE then
        (if timeSinceLastHeartbeat > timeoutThreshold fm then SUSPECT else status)
      else if status = SUSPECT then
        (if timeSinceLastHeartbeat > confirmationThreshold fm then CONFIRMED_DOWN else status)
      else status)"

text \<open>
  \<^verbatim>\<open>checkHeartbeats\<close> at time \<open>now\<close>. The loop visits every entry of the status map once;
  an entry's new status depends on that entry and its heartbeat time only, so the
  iteration order of the unordered map does not matter and the loop is a pointwise
  update. \<^verbatim>\<open>lastHeartbeat[serverRank]\<close> creates an epoch entry for a rank it does not
  hold, for every entry that is not skipped.
\<close>

definition checkHeartbeats :: "FaultManager \<Rightarrow> int \<Rightarrow> FaultManager" where
  "checkHeartbeats fm now =
     fm\<lparr> serverStatus :=
            (\<lambda>rank. case serverStatus fm rank of
                       None \<Rightarrow> None
                     | Some status \<Rightarrow> Some (checkEntry fm (now - heartbeatOf fm rank) status)),
         lastHeartbeat :=
            (\<lambda>rank. case serverStatus fm rank of
                       None \<Rightarrow> lastHeartbeat fm rank
                     | Some status \<Rightarrow>
                         if status = CONFIRMED_DOWN then lastHeartbeat fm rank
                         else Some (heartbeatOf fm rank)) \<rparr>"

text \<open>The step relation: the three entry points that change a server's status.\<close>

datatype fm_event =
    CheckHeartbeats int
  | HeartbeatArrival int int
  | FailureNotification int

fun fm_step :: "FaultManager \<Rightarrow> fm_event \<Rightarrow> FaultManager" where
  "fm_step fm (CheckHeartbeats now) = checkHeartbeats fm now"
| "fm_step fm (HeartbeatArrival serverRank now) = processHeartbeat fm serverRank now"
| "fm_step fm (FailureNotification serverRank) = notifyServerFailure fm serverRank"

definition fm_run :: "FaultManager \<Rightarrow> fm_event list \<Rightarrow> FaultManager" where
  "fm_run fm evs = foldl fm_step fm evs"

fun heartbeat_driven :: "fm_event \<Rightarrow> bool" where
  "heartbeat_driven (CheckHeartbeats now) = True"
| "heartbeat_driven (HeartbeatArrival serverRank now) = True"
| "heartbeat_driven (FailureNotification serverRank) = False"

text \<open>
  The transitions the failure detector is meant to make in one step: stay, one stage
  forward, or back to ACTIVE from SUSPECT or RECOVERING when a heartbeat arrives.
\<close>

fun is_arrival :: "fm_event \<Rightarrow> bool" where
  "is_arrival (HeartbeatArrival serverRank now) = True"
| "is_arrival ev = False"

definition ordered_transition :: "fm_event \<Rightarrow> ServerStatus \<Rightarrow> ServerStatus \<Rightarrow> bool" where
  "ordered_transition ev s s' =
     (s' = s \<or> (s = ACTIVE \<and> s' = SUSPECT) \<or> (s = SUSPECT \<and> s' = CONFIRMED_DOWN) \<or>
      (is_arrival ev \<and> (s = SUSPECT \<or> s = RECOVERING) \<and> s' = ACTIVE))"

section \<open>The list-based server of dart.cpp\<close>

text \<open>
  \<^verbatim>\<open>class DistributedIdiomsServer\<close> of dart.cpp keeps the keys and their suffixes in two
  vectors and the metadata in an unordered map from object id to a vector of pairs.
  The map is an association list with one entry per object id; the order of its entries
  stands for the unspecified iteration order of the unordered map, which no result
  below depends on (every result is sorted).
\<close>

type_synonym metadata = "(int \<times> (string \<times> string) list) list"

text \<open>\<^verbatim>\<open>objectMetadata[objectId].push_back({key, value})\<close>.\<close>

fun metadata_push :: "metadata \<Rightarrow> int \<Rightarrow> string \<times> string \<Rightarrow> metadata" where
  "metadata_push [] objectId kv = [(objectId, [kv])]"
| "metadata_push ((i, l) # rest) objectId kv =
     (if i = objectId then (i, l @ [kv]) # rest else (i, l) # metadata_push rest objectId kv)"

record DartServer =
  indexedKeys :: "string list"
  indexedSuffixes :: "string list"
  dart_objectMetadata :: metadata

definition DartServer_init :: DartServer where
  "DartServer_init = \<lparr> indexedKeys = [], indexedSuffixes = [], dart_objectMetadata = [] \<rparr>"

definition dart_addIndexedKey :: "DartServer \<Rightarrow> string \<Rightarrow> string \<Rightarrow> int \<Rightarrow> DartServer" where
  "dart_addIndexedKey s key val objectId =
     \<lparr> indexedKeys = indexedKeys s @ [key],
       indexedSuffixes = indexedSuffixes s @ substrings_from key,
       dart_objectMetadata = metadata_push (dart_objectMetadata s) objectId (key, val) \<rparr>"

definition hasKey :: "DartServer \<Rightarrow> string \<Rightarrow> bool" where
  "hasKey s key = (key \<in> set (indexedKeys s))"

definition hasSuffix :: "DartServer \<Rightarrow> string \<Rightarrow> bool" where
  "hasSuffix s sfx = (sfx \<in> set (indexedSuffixes s))"

text \<open>
  \<^verbatim>\<open>canHandleQuery\<close>. \<^verbatim>\<open>keyPart.front()\<close> and \<^verbatim>\<open>keyPart.back()\<close> on an empty string are
  undefined behaviour: an empty key portion has no result (\<open>None\<close>).
\<close>

definition dart_canHandleQuery :: "DartServer \<Rightarrow> string \<Rightarrow> bool option" where
  "dart_canHandleQuery s query =
     (let keyPart = keyPortion query in
      if keyPart = ''*'' then Some True
      else if keyPart = [] then None
      else if hd keyPart = CHR ''*'' \<and> last keyPart = CHR ''*'' \<and> length keyPart > 2 then
        (let infx = take (length keyPart - 2) (drop 1 keyPart)
         in Some (list_ex (\<lambda>sfx. starts_with sfx infx) (indexedSuffixes s)))
      else if hd keyPart = CHR ''*'' then Some (hasSuffix s (drop 1 keyPart))
      else if last keyPart = CHR ''*'' then
        (let prefx = take (length keyPart - 1) keyPart
         in Some (list_ex (\<lambda>key. starts_with key prefx) (indexedKeys s)))
      else Some (hasKey s keyPart))"

text \<open>
  \<^verbatim>\<open>executeQuery\<close> computes, for the key portion and again for the value portion, three
  flags and a token, and then matches every pair of every object with them. The two
  copies of that code are the same but for the names, so the model has it once.
  \<^verbatim>\<open>part.back()\<close> is evaluated first, so an empty portion is undefined behaviour here as
  well.
\<close>

record pattern =
  hasPrefix :: bool
  hasSuffix_flag :: bool
  isWildcard :: bool
  hasInfix :: bool
  token :: string

definition dart_pattern :: "string \<Rightarrow> pattern option" where
  "dart_pattern part =
     (if part = [] then None
      else
        (let hasPrefix' = (last part = CHR ''*'' \<and> length part > 1);
             hasSuffix' = (hd part = CHR ''*'' \<and> length part > 1);
             isWildcard' = (part = ''*'');
             hasInfix' = (hasPrefix' \<and> hasSuffix' \<and> length part > 2)
         in Some \<lparr> hasPrefix = hasPrefix', hasSuffix_flag = hasSuffix', isWildcard = isWildcard',
                   hasInfix = hasInfix',
                   token =
                     (if hasInfix' then take (length part - 2) (drop 1 part)
                      else if hasPrefix' then take (length part - 1) part
                      else if hasSuffix' then drop 1 part
                      else if \<not> isWildcard' then part
                      else []) \<rparr>))"

definition dart_match :: "pattern \<Rightarrow> string \<Rightarrow> bool" where
  "dart_match p str =
     (if isWildcard p then True
      else if hasInfix p then contains str (token p)
      else if hasPrefix p then starts_with str (token p)
      else if hasSuffix_flag p then ends_with str (token p)
      else str = token p)"

definition dart_executeQuery :: "DartServer \<Rightarrow> string \<Rightarrow> int list option" where
  "dart_executeQuery s query =
     (case dart_pattern (keyPortion query) of
        None \<Rightarrow> None
      | Some kp \<Rightarrow>
          (case dart_pattern (valuePortion query) of
             None \<Rightarrow> None
           | Some vp \<Rightarrow>
               Some (sort (remdups
                 (map fst
                   (filter (\<lambda>(objectId, metadata).
                        list_ex (\<lambda>(key, val). dart_match kp key \<and> dart_match vp val) metadata)
                      (dart_objectMetadata s)))))))"

section \<open>The two-layer trie (idioms.cpp, src/index/Trie.cpp)\<close>

text \<open>
  A node's \<^verbatim>\<open>children\<close> is an unordered map from \<^verbatim>\<open>char\<close> to a child: an association
  list with one entry per character, read with \<^const>\<open>map_of\<close> and written with
  \<^const>\<open>AList.update\<close> (\<^verbatim>\<open>children[c] = ...\<close>). A node's \<^verbatim>\<open>objectIds\<close> is an unordered set
  of \<^verbatim>\<open>int\<close>: a list without repetitions, written with \<^const>\<open>List.insert\<close>. The order of
  either list stands for the unspecified iteration order; every search result is
  sorted and free of repetitions at the end, so it does not depend on that order.
\<close>

datatype ValueTrieNode =
  ValueTrieNode
    (v_children: "(char \<times> ValueTrieNode) list")
    (isEndOfValue: bool)
    (objectIds: "int list")
    (fullValue: string)

definition ValueTrieNode_init :: ValueTrieNode where
  "ValueTrieNode_init = ValueTrieNode [] False [] []"

record ValueTrie =
  v_root :: ValueTrieNode
  v_useSuffixTreeMode :: bool

definition ValueTrie_init :: "bool \<Rightarrow> ValueTrie" where
  "ValueTrie_init useSuffixMode =
     \<lparr> v_root = ValueTrieNode_init, v_useSuffixTreeMode = useSuffixMode \<rparr>"

datatype KeyTrieNode =
  KeyTrieNode
    (k_children: "(char \<times> KeyTrieNode) list")
    (isEndOfKey: bool)
    (valueTrie: "ValueTrie option")
    (fullKey: string)

definition KeyTrieNode_init :: KeyTrieNode where
  "KeyTrieNode_init = KeyTrieNode [] False None []"

record KeyTrie =
  k_root :: KeyTrieNode
  k_useSuffixTreeMode :: bool

definition KeyTrie_init :: "bool \<Rightarrow> KeyTrie" where
  "KeyTrie_init useSuffixMode =
     \<lparr> k_root = KeyTrieNode_init, k_useSuffixTreeMode = useSuffixMode \<rparr>"

subsection \<open>Second layer: values\<close>

text \<open>
  The loop that the insert and the exact search share: walk from a node along the
  characters of a string. \<open>valueNodeAt\<close> stops with \<open>None\<close> at a missing child (the early
  return of \<^verbatim>\<open>searchExactValue\<close>); \<open>updateValueNode\<close> creates the missing children and
  applies \<open>f\<close> to the node it arrives at (the assignments after the loop of
  \<^verbatim>\<open>insertValue\<close>).
\<close>

fun valueNodeAt :: "string \<Rightarrow> ValueTrieNode \<Rightarrow> ValueTrieNode option" where
  "valueNodeAt [] current = Some current"
| "valueNodeAt (c # cs) current =
     (case map_of (v_children current) c of
        None \<Rightarrow> None
      | Some child \<Rightarrow> valueNodeAt cs child)"

fun updateValueNode ::
  "string \<Rightarrow> (ValueTrieNode \<Rightarrow> ValueTrieNode) \<Rightarrow> ValueTrieNode \<Rightarrow> ValueTrieNode" where
  "updateValueNode [] f current = f current"
| "updateValueNode (c # cs) f current =
     (let child = (case map_of (v_children current) c of
                     None \<Rightarrow> ValueTrieNode_init
                   | Some n \<Rightarrow> n)
      in ValueTrieNode (AList.update c (updateValueNode cs f child) (v_children current))
           (isEndOfValue current) (objectIds current) (fullValue current))"

text \<open>
  The assignments at the end of \<^verbatim>\<open>insertValue\<close>; \<open>stored\<close> is \<^verbatim>\<open>fullValue\<close> when that
  argument is not empty and \<^verbatim>\<open>value\<close> otherwise.
\<close>

definition markEndOfValue :: "int \<Rightarrow> string \<Rightarrow> ValueTrieNode \<Rightarrow> ValueTrieNode" where
  "markEndOfValue objectId stored current =
     ValueTrieNode (v_children current) True (List.insert objectId (objectIds current)) stored"

definition insertValue :: "ValueTrie \<Rightarrow> string \<Rightarrow> int \<Rightarrow> string \<Rightarrow> ValueTrie" where
  "insertValue vt val objectId full =
     vt\<lparr> v_root := updateValueNode val
            (markEndOfValue objectId (if full \<noteq> [] then full else val)) (v_root vt) \<rparr>"

definition insertValueWithSuffixes :: "ValueTrie \<Rightarrow> string \<Rightarrow> int \<Rightarrow> ValueTrie" where
  "insertValueWithSuffixes vt val objectId =
     foldl (\<lambda>t sfx. insertValue t sfx objectId val) vt (substrings_from val)"

definition insertValueWithSuffixMode :: "ValueTrie \<Rightarrow> string \<Rightarrow> int \<Rightarrow> ValueTrie" where
  "insertValueWithSuffixMode vt val objectId =
     (let vt1 = insertValue vt val objectId []
      in if v_useSuffixTreeMode vt1 then insertValueWithSuffixes vt1 val objectId else vt1)"

fun collectAllObjectIds :: "ValueTrieNode \<Rightarrow> int list" where
  "collectAllObjectIds (ValueTrieNode children e ids full) =
     (if e then ids else []) @
     concat (map (\<lambda>(c, child). collectAllObjectIds child) children)"

fun searchByValuePrefix :: "ValueTrieNode \<Rightarrow> string \<Rightarrow> int list" where
  "searchByValuePrefix node [] = collectAllObjectIds node"
| "searchByValuePrefix (ValueTrieNode children e ids full) (c # rest) =
     (if c = CHR ''*''
      then concat (map (\<lambda>(c', child). searchByValuePrefix child rest) children)
      else (case map_of children c of
              None \<Rightarrow> []
            | Some child \<Rightarrow> searchByValuePrefix child rest))"

fun searchByValueInfix :: "ValueTrieNode \<Rightarrow> string \<Rightarrow> int list" where
  "searchByValueInfix (ValueTrieNode children e ids full) infx =
     (if e \<and> full \<noteq> [] \<and> contains full infx then ids else []) @
     concat (map (\<lambda>(c, child). searchByValueInfix child infx) children)"

fun searchByValueSuffix :: "ValueTrieNode \<Rightarrow> string \<Rightarrow> int list" where
  "searchByValueSuffix (ValueTrieNode children e ids full) sfx =
     (if e \<and> full \<noteq> [] \<and> ends_with full sfx then ids else []) @
     concat (map (\<lambda>(c, child). searchByValueSuffix child sfx) children)"

definition searchExactValue :: "ValueTrie \<Rightarrow> string \<Rightarrow> int list" where
  "searchExactValue vt val =
     (case valueNodeAt val (v_root vt) of
        None \<Rightarrow> []
      | Some current \<Rightarrow> if isEndOfValue current then objectIds current else [])"

definition searchValuePrefix :: "ValueTrie \<Rightarrow> string \<Rightarrow> int list" where
  "searchValuePrefix vt prefx = searchByValuePrefix (v_root vt) prefx"

definition searchValueSuffix :: "ValueTrie \<Rightarrow> string \<Rightarrow> int list" where
  "searchValueSuffix vt sfx =
     (if v_useSuffixTreeMode vt then searchByValueSuffix (v_root vt) sfx else [])"

definition searchValueInfix :: "ValueTrie \<Rightarrow> string \<Rightarrow> int list" where
  "searchValueInfix vt infx =
     (if v_useSuffixTreeMode vt then searchByValueInfix (v_root vt) infx else [])"

definition getAllObjectIds :: "ValueTrie \<Rightarrow> int list" where
  "getAllObjectIds vt = collectAllObjectIds (v_root vt)"

subsection \<open>First layer: keys\<close>

fun keyNodeAt :: "string \<Rightarrow> KeyTrieNode \<Rightarrow> KeyTrieNode option" where
  "keyNodeAt [] current = Some current"
| "keyNodeAt (c # cs) current =
     (case map_of (k_children current) c of
        None \<Rightarrow> None
      | Some child \<Rightarrow> keyNodeAt cs child)"

fun updateKeyNode ::
  "string \<Rightarrow> (KeyTrieNode \<Rightarrow> KeyTrieNode) \<Rightarrow> KeyTrieNode \<Rightarrow> KeyTrieNode" where
  "updateKeyNode [] f current = f current"
| "updateKeyNode (c # cs) f current =
     (let child = (case map_of (k_children current) c of
                     None \<Rightarrow> KeyTrieNode_init
                   | Some n \<Rightarrow> n)
      in KeyTrieNode (AList.update c (updateKeyNode cs f child) (k_children current))
           (isEndOfKey current) (valueTrie current) (fullKey current))"

text \<open>
  The assignments at the end of \<^verbatim>\<open>insertKeyOnly\<close>: the flag, the value trie if the node
  has none yet, and the full key.
\<close>

definition markEndOfKey :: "bool \<Rightarrow> string \<Rightarrow> KeyTrieNode \<Rightarrow> KeyTrieNode" where
  "markEndOfKey useSuffixMode stored current =
     KeyTrieNode (k_children current) True
       (case valueTrie current of
          None \<Rightarrow> Some (ValueTrie_init useSuffixMode)
        | Some vt \<Rightarrow> Some vt)
       stored"

text \<open>
  \<^verbatim>\<open>insertKeyOnly\<close> returns a shared pointer to the value trie of the node at the end of
  \<open>key\<close>. No other node holds that pointer, and a node's pointer is never replaced once
  it is set, so in the model the pointer is the path \<open>key\<close>: the caller's later writes
  through it are \<open>updateValueTrieAt key\<close>.
\<close>

definition insertKeyOnly :: "KeyTrie \<Rightarrow> string \<Rightarrow> string \<Rightarrow> KeyTrie" where
  "insertKeyOnly kt key full =
     kt\<lparr> k_root := updateKeyNode key
            (markEndOfKey (k_useSuffixTreeMode kt) (if full \<noteq> [] then full else key))
            (k_root kt) \<rparr>"

definition insertKeyWithSuffixes :: "KeyTrie \<Rightarrow> string \<Rightarrow> KeyTrie" where
  "insertKeyWithSuffixes kt key =
     foldl (\<lambda>t sfx. insertKeyOnly t sfx key) kt (substrings_from key)"

definition insertKeyWithSuffixMode :: "KeyTrie \<Rightarrow> string \<Rightarrow> KeyTrie" where
  "insertKeyWithSuffixMode kt key =
     (let kt1 = insertKeyOnly kt key key
      in if k_useSuffixTreeMode kt1 then insertKeyWithSuffixes kt1 key else kt1)"

definition onValueTrie :: "(ValueTrie \<Rightarrow> ValueTrie) \<Rightarrow> KeyTrieNode \<Rightarrow> KeyTrieNode" where
  "onValueTrie f current =
     KeyTrieNode (k_children current) (isEndOfKey current)
       (map_option f (valueTrie current)) (fullKey current)"

definition updateValueTrieAt :: "KeyTrie \<Rightarrow> string \<Rightarrow> (ValueTrie \<Rightarrow> ValueTrie) \<Rightarrow> KeyTrie" where
  "updateValueTrieAt kt key f = kt\<lparr> k_root := updateKeyNode key (onValueTrie f) (k_root kt) \<rparr>"

text \<open>
  The searches of the first layer return the value tries they find, in the order of
  the traversal. A node whose pointer is null contributes nothing.
\<close>

definition valueTrieOf :: "KeyTrieNode \<Rightarrow> ValueTrie list" where
  "valueTrieOf node = (case valueTrie node of None \<Rightarrow> [] | Some vt \<Rightarrow> [vt])"

fun collectAllValueTries :: "KeyTrieNode \<Rightarrow> ValueTrie list" where
  "collectAllValueTries (KeyTrieNode children e vt full) =
     (if e then valueTrieOf (KeyTrieNode children e vt full) else []) @
     concat (map (\<lambda>(c, child). collectAllValueTries child) children)"

fun searchByKeyPrefix :: "KeyTrieNode \<Rightarrow> string \<Rightarrow> ValueTrie list" where
  "searchByKeyPrefix node [] = collectAllValueTries node"
| "searchByKeyPrefix (KeyTrieNode children e vt full) (c # rest) =
     (if c = CHR ''*''
      then concat (map (\<lambda>(c', child). searchByKeyPrefix child rest) children)
      else (case map_of children c of
              None \<Rightarrow> []
            | Some child \<Rightarrow> searchByKeyPrefix child rest))"

fun searchByKeyInfix :: "KeyTrieNode \<Rightarrow> string \<Rightarrow> ValueTrie list" where
  "searchByKeyInfix (KeyTrieNode children e vt full) infx =
     (if e \<and> full \<noteq> [] \<and> contains full infx
      then valueTrieOf (KeyTrieNode children e vt full) else []) @
     concat (map (\<lambda>(c, child). searchByKeyInfix child infx) children)"

fun searchByKeySuffix :: "KeyTrieNode \<Rightarrow> string \<Rightarrow> ValueTrie list" where
  "searchByKeySuffix (KeyTrieNode children e vt full) sfx =
     (if e \<and> full \<noteq> [] \<and> ends_with full sfx
      then valueTrieOf (KeyTrieNode children e vt full) else []) @
     concat (map (\<lambda>(c, child). searchByKeySuffix child sfx) children)"

text \<open>
  \<^verbatim>\<open>searchExactKey\<close> returns the node's pointer, which the callers test for null: the
  result is the list of the at most one value trie found.
\<close>

definition searchExactKey :: "KeyTrie \<Rightarrow> string \<Rightarrow> ValueTrie list" where
  "searchExactKey kt key =
     (case keyNodeAt key (k_root kt) of
        None \<Rightarrow> []
      | Some current \<Rightarrow> if isEndOfKey current then valueTrieOf current else [])"

definition searchKeyPrefix :: "KeyTrie \<Rightarrow> string \<Rightarrow> ValueTrie list" where
  "searchKeyPrefix kt prefx = searchByKeyPrefix (k_root kt) prefx"

definition searchKeySuffix :: "KeyTrie \<Rightarrow> string \<Rightarrow> ValueTrie list" where
  "searchKeySuffix kt sfx =
     (if k_useSuffixTreeMode kt then searchByKeySuffix (k_root kt) sfx else [])"

definition searchKeyInfix :: "KeyTrie \<Rightarrow> string \<Rightarrow> ValueTrie list" where
  "searchKeyInfix kt infx =
     (if k_useSuffixTreeMode kt then searchByKeyInfix (k_root kt) infx else [])"

definition getAllValueTries :: "KeyTrie \<Rightarrow> ValueTrie list" where
  "getAllValueTries kt = collectAllValueTries (k_root kt)"

section \<open>The client of idioms.cpp\<close>

datatype QueryType = EXACT | PREFIX | SUFFIX | INFIX | WILDCARD

record QueryCondition =
  keyPart :: string
  valuePart :: string
  keyType :: QueryType
  valueType :: QueryType

text \<open>
  \<^verbatim>\<open>parseQueryCondition\<close> runs the same chain of tests on the key portion and on the value
  portion; the model has the chain once. It returns the type and the pattern with its
  stars removed. \<^verbatim>\<open>front()\<close> of an empty portion is undefined behaviour: no result.
\<close>

definition classifyPart :: "string \<Rightarrow> (QueryType \<times> string) option" where
  "classifyPart part =
     (if part = ''*'' then Some (WILDCARD, part)
      else if part = [] then None
      else if hd part = CHR ''*'' \<and> last part = CHR ''*'' \<and> length part > 2
        then Some (INFIX, take (length part - 2) (drop 1 part))
      else if hd part = CHR ''*'' then Some (SUFFIX, drop 1 part)
      else if last part = CHR ''*'' then Some (PREFIX, take (length part - 1) part)
      else Some (EXACT, part))"

definition parseQueryCondition :: "string \<Rightarrow> QueryCondition option" where
  "parseQueryCondition queryStr =
     (case classifyPart (keyPortion queryStr) of
        None \<Rightarrow> None
      | Some (kt, kp) \<Rightarrow>
          (case classifyPart (valuePortion queryStr) of
             None \<Rightarrow> None
           | Some (vt, vp) \<Rightarrow>
               Some \<lparr> keyPart = kp, valuePart = vp, keyType = kt, valueType = vt \<rparr>))"

record IdiomsClient =
  keyTrie :: KeyTrie
  useSuffixTreeMode :: bool

definition IdiomsClient_init :: "bool \<Rightarrow> IdiomsClient" where
  "IdiomsClient_init useSuffixMode =
     \<lparr> keyTrie = KeyTrie_init useSuffixMode, useSuffixTreeMode = useSuffixMode \<rparr>"

text \<open>
  The program state of idioms.cpp: the client and the global \<^verbatim>\<open>objectMetadata\<close>, to which
  \<^verbatim>\<open>track_metadata\<close> appends every inserted pair.
\<close>

record idioms_state =
  client :: IdiomsClient
  objectMetadata :: metadata

definition idioms_init :: "bool \<Rightarrow> idioms_state" where
  "idioms_init useSuffixMode = \<lparr> client = IdiomsClient_init useSuffixMode, objectMetadata = [] \<rparr>"

definition indexRecord :: "bool \<Rightarrow> KeyTrie \<Rightarrow> string \<Rightarrow> string \<Rightarrow> int \<Rightarrow> KeyTrie" where
  "indexRecord useSuffixMode kt key val objectId =
     (if useSuffixMode
      then updateValueTrieAt (insertKeyWithSuffixMode kt key) key
             (\<lambda>vt. insertValueWithSuffixMode vt val objectId)
      else updateValueTrieAt (insertKeyOnly kt key []) key
             (\<lambda>vt. insertValue vt val objectId []))"

definition create_md_index :: "idioms_state \<Rightarrow> string \<Rightarrow> string \<Rightarrow> int \<Rightarrow> idioms_state" where
  "create_md_index st key val objectId =
     \<lparr> client = (client st)
         \<lparr> keyTrie := indexRecord (useSuffixTreeMode (client st)) (keyTrie (client st))
                         key val objectId \<rparr>,
       objectMetadata = metadata_push (objectMetadata st) objectId (key, val) \<rparr>"

text \<open>The two \<^verbatim>\<open>switch\<close> statements of \<^verbatim>\<open>md_search\<close>.\<close>

fun keySearch :: "KeyTrie \<Rightarrow> QueryType \<Rightarrow> string \<Rightarrow> ValueTrie list" where
  "keySearch kt EXACT part = searchExactKey kt part"
| "keySearch kt PREFIX part = searchKeyPrefix kt part"
| "keySearch kt SUFFIX part = searchKeySuffix kt part"
| "keySearch kt INFIX part = searchKeyInfix kt part"
| "keySearch kt WILDCARD part = getAllValueTries kt"

fun valueSearch :: "ValueTrie \<Rightarrow> QueryType \<Rightarrow> string \<Rightarrow> int list" where
  "valueSearch vt EXACT part = searchExactValue vt part"
| "valueSearch vt PREFIX part = searchValuePrefix vt part"
| "valueSearch vt SUFFIX part = searchValueSuffix vt part"
| "valueSearch vt INFIX part = searchValueInfix vt part"
| "valueSearch vt WILDCARD part = getAllObjectIds vt"

definition md_search :: "IdiomsClient \<Rightarrow> string \<Rightarrow> int list option" where
  "md_search c queryStr =
     (case parseQueryCondition queryStr of
        None \<Rightarrow> None
      | Some condition \<Rightarrow>
          (let valueTries = keySearch (keyTrie c) (keyType condition) (keyPart condition);
               resultSet = concat (map (\<lambda>vt. valueSearch vt (valueType condition)
                                              (valuePart condition)) valueTries)
           in Some (sort (remdups resultSet))))"

text \<open>
  The brute-force scan that claim C1 compares with, written from the claim's words: the
  object ids of the inserted pairs whose key and value satisfy the string predicate of
  the query's shape (equality, starts-with, ends-with, contains, always true), sorted.
\<close>

fun shapePredicate :: "QueryType \<Rightarrow> string \<Rightarrow> string \<Rightarrow> bool" where
  "shapePredicate EXACT part str = (str = part)"
| "shapePredicate PREFIX part str = starts_with str part"
| "shapePredicate SUFFIX part str = ends_with str part"
| "shapePredicate INFIX part str = contains str part"
| "shapePredicate WILDCARD part str = True"

definition bruteForceScan :: "metadata \<Rightarrow> string \<Rightarrow> int list option" where
  "bruteForceScan md queryStr =
     (case parseQueryCondition queryStr of
        None \<Rightarrow> None
      | Some condition \<Rightarrow>
          Some (sort (remdups
            (map fst
              (filter (\<lambda>(objectId, pairs).
                   list_ex (\<lambda>(key, val).
                       shapePredicate (keyType condition) (keyPart condition) key \<and>
                       shapePredicate (valueType condition) (valuePart condition) val) pairs)
                 md)))))"

section \<open>Vocabulary for the properties of the trie\<close>

text \<open>
  A node is a marked terminal for an insert when the assignments at the end of the
  insert would leave it as it is; a path is marked in a trie when the walk along it
  arrives at such a node. \<open>markValues\<close> and \<open>markKeys\<close> are the sequences of inserts that
  the suffix modes run, on the root node.
\<close>

definition valueTerminal :: "int \<Rightarrow> string \<Rightarrow> ValueTrieNode \<Rightarrow> bool" where
  "valueTerminal objectId stored n =
     (isEndOfValue n \<and> objectId \<in> set (objectIds n) \<and> fullValue n = stored)"

definition valueMarked :: "int \<Rightarrow> string \<Rightarrow> ValueTrieNode \<Rightarrow> string \<Rightarrow> bool" where
  "valueMarked objectId stored t p =
     (case valueNodeAt p t of None \<Rightarrow> False | Some n \<Rightarrow> valueTerminal objectId stored n)"

definition keyTerminal :: "string \<Rightarrow> KeyTrieNode \<Rightarrow> bool" where
  "keyTerminal stored n = (isEndOfKey n \<and> valueTrie n \<noteq> None \<and> fullKey n = stored)"

definition keyMarked :: "string \<Rightarrow> KeyTrieNode \<Rightarrow> string \<Rightarrow> bool" where
  "keyMarked stored t p =
     (case keyNodeAt p t of None \<Rightarrow> False | Some n \<Rightarrow> keyTerminal stored n)"

definition markValues :: "int \<Rightarrow> string \<Rightarrow> ValueTrieNode \<Rightarrow> string list \<Rightarrow> ValueTrieNode" where
  "markValues i s t ps = foldl (\<lambda>t p. updateValueNode p (markEndOfValue i s) t) t ps"

definition markKeys :: "bool \<Rightarrow> string \<Rightarrow> KeyTrieNode \<Rightarrow> string list \<Rightarrow> KeyTrieNode" where
  "markKeys m s t ps = foldl (\<lambda>t p. updateKeyNode p (markEndOfKey m s) t) t ps"

text \<open>The paths that indexing a record marks in the first layer.\<close>

definition keyPaths :: "bool \<Rightarrow> bool \<Rightarrow> string \<Rightarrow> string list" where
  "keyPaths useSuffixMode trieMode key =
     key # (if useSuffixMode \<and> trieMode then substrings_from key else [])"

section \<open>Vocabulary for the correctness of the search\<close>

text \<open>
  The invariants of the trie that the inserts keep: a node of the second layer that is
  not a terminal carries no object id, and a node of the first layer that is not a
  terminal has no value trie.
\<close>

fun vwf :: "ValueTrieNode \<Rightarrow> bool" where
  "vwf (ValueTrieNode children e ids full) =
     ((e \<or> ids = []) \<and> list_all (\<lambda>(c, child). vwf child) children)"

definition kwf_node :: "KeyTrieNode \<Rightarrow> bool" where
  "kwf_node n =
     ((isEndOfKey n \<or> valueTrie n = None) \<and>
      (case valueTrie n of None \<Rightarrow> True | Some vt \<Rightarrow> vwf (v_root vt)))"

fun kwf :: "KeyTrieNode \<Rightarrow> bool" where
  "kwf (KeyTrieNode children e vt full) =
     (kwf_node (KeyTrieNode children e vt full) \<and> list_all (\<lambda>(c, child). kwf child) children)"

text \<open>
  The object ids that a search of the first layer reaches: those of a terminal's value
  trie, and those of a list of value tries.
\<close>

definition ownIds :: "KeyTrieNode \<Rightarrow> int set" where
  "ownIds n =
     (if isEndOfKey n
      then (case valueTrie n of None \<Rightarrow> {} | Some vt \<Rightarrow> set (getAllObjectIds vt))
      else {})"

definition idsOf :: "ValueTrie list \<Rightarrow> int set" where
  "idsOf vts = (\<Union>vt \<in> set vts. set (getAllObjectIds vt))"

definition keyNodeOrInit :: "string \<Rightarrow> KeyTrieNode \<Rightarrow> KeyTrieNode" where
  "keyNodeOrInit p t = (case keyNodeAt p t of None \<Rightarrow> KeyTrieNode_init | Some n \<Rightarrow> n)"

definition exactIds :: "KeyTrieNode \<Rightarrow> string \<Rightarrow> int set" where
  "exactIds t q = (case keyNodeAt q t of None \<Rightarrow> {} | Some n \<Rightarrow> ownIds n)"

text \<open>
  The match that \<^verbatim>\<open>searchByKeyPrefix\<close> and \<^verbatim>\<open>searchByValuePrefix\<close> implement: a \<^verbatim>\<open>*\<close> of
  the pattern takes the branch over all children, so it stands for any one character;
  every other character has to be the next character of the string.
\<close>

fun pmatch :: "string \<Rightarrow> string \<Rightarrow> bool" where
  "pmatch [] str = True"
| "pmatch (c # cs) [] = False"
| "pmatch (c # cs) (d # ds) = ((c = CHR ''*'' \<or> c = d) \<and> pmatch cs ds)"

text \<open>
  The string predicate of each shape with that match for a prefix pattern, and the
  brute-force scan of the inserted metadata with a given family of predicates:
  \<^verbatim>\<open>bruteForceScan\<close> is \<open>scanWith shapePredicate\<close>.
\<close>

fun designPredicate :: "QueryType \<Rightarrow> string \<Rightarrow> string \<Rightarrow> bool" where
  "designPredicate EXACT part key = (key = part)"
| "designPredicate PREFIX part key = pmatch part key"
| "designPredicate SUFFIX part key = ends_with key part"
| "designPredicate INFIX part key = contains key part"
| "designPredicate WILDCARD part key = True"

definition scanWith ::
  "(QueryType \<Rightarrow> string \<Rightarrow> string \<Rightarrow> bool) \<Rightarrow> metadata \<Rightarrow> string \<Rightarrow> int list option" where
  "scanWith matches md queryStr =
     (case parseQueryCondition queryStr of
        None \<Rightarrow> None
      | Some condition \<Rightarrow>
          Some (sort (remdups
            (map fst
              (filter (\<lambda>(objectId, pairs).
                   list_ex (\<lambda>(key, val).
                       matches (keyType condition) (keyPart condition) key \<and>
                       matches (valueType condition) (valuePart condition) val) pairs)
                 md)))))"

text \<open>
  A sequence of \<^verbatim>\<open>create_md_index\<close> calls, and the (object id, key, value) triples that
  \<^verbatim>\<open>track_metadata\<close> has stored.
\<close>

definition insertRecords :: "idioms_state \<Rightarrow> (string \<times> string \<times> int) list \<Rightarrow> idioms_state" where
  "insertRecords st records = foldl (\<lambda>st (key, val, objectId). create_md_index st key val objectId) st records"

definition triples :: "metadata \<Rightarrow> (int \<times> string \<times> string) set" where
  "triples md = {(i, k, v). \<exists>pairs. (i, pairs) \<in> set md \<and> (k, v) \<in> set pairs}"

text \<open>
  What an indexed record \<open>(k, v, i)\<close> leaves in a trie in suffix-tree mode, whatever is
  inserted later: the node at the end of \<open>k\<close> is a terminal whose full key ends with
  \<open>k\<close>, its value trie is in suffix-tree mode, and in it the node at the end of \<open>v\<close> is a
  terminal that carries \<open>i\<close> and whose full value ends with \<open>v\<close>. \<open>kflags\<close>: every value
  trie of the first layer is in suffix-tree mode.
\<close>

definition valueHolds :: "int \<Rightarrow> string \<Rightarrow> ValueTrieNode \<Rightarrow> bool" where
  "valueHolds i v m = (isEndOfValue m \<and> i \<in> set (objectIds m) \<and> suffix v (fullValue m))"

definition valueRecorded :: "int \<Rightarrow> string \<Rightarrow> ValueTrieNode \<Rightarrow> bool" where
  "valueRecorded i v t = (case valueNodeAt v t of None \<Rightarrow> False | Some m \<Rightarrow> valueHolds i v m)"

definition keyHolds :: "int \<Rightarrow> string \<Rightarrow> string \<Rightarrow> KeyTrieNode \<Rightarrow> bool" where
  "keyHolds i k v n =
     (isEndOfKey n \<and> suffix k (fullKey n) \<and>
      (case valueTrie n of
         None \<Rightarrow> False
       | Some vt \<Rightarrow> v_useSuffixTreeMode vt \<and> valueRecorded i v (v_root vt)))"

definition keyRecorded :: "int \<Rightarrow> string \<Rightarrow> string \<Rightarrow> KeyTrieNode \<Rightarrow> bool" where
  "keyRecorded i k v t = (case keyNodeAt k t of None \<Rightarrow> False | Some n \<Rightarrow> keyHolds i k v n)"

definition kflag :: "KeyTrieNode \<Rightarrow> bool" where
  "kflag n = (case valueTrie n of None \<Rightarrow> True | Some vt \<Rightarrow> v_useSuffixTreeMode vt)"

fun kflags :: "KeyTrieNode \<Rightarrow> bool" where
  "kflags (KeyTrieNode children e vt full) =
     (kflag (KeyTrieNode children e vt full) \<and> list_all (\<lambda>(c, child). kflags child) children)"

section \<open>The trie-based server (src1/server/Server.cpp)\<close>

text \<open>
  The server's state with its \<^verbatim>\<open>indexMutex\<close>: the field says whether the mutex is owned.
  The runs considered have one thread, so an owned mutex is owned by the caller.
\<close>

record DistributedIdiomsServer =
  serverId :: int
  srv_useSuffixTreeMode :: bool
  srv_keyTrie :: KeyTrie
  srv_objectMetadata :: metadata
  indexMutex :: bool

definition DistributedIdiomsServer_init :: "int \<Rightarrow> bool \<Rightarrow> DistributedIdiomsServer" where
  "DistributedIdiomsServer_init ident useSuffixMode =
     \<lparr> serverId = ident,
       srv_useSuffixTreeMode = useSuffixMode,
       srv_keyTrie = KeyTrie_init useSuffixMode,
       srv_objectMetadata = [],
       indexMutex = False \<rparr>"

text \<open>
  What keeps a call from returning a result.
  \<^item> \<open>Relock\<close>: \<^verbatim>\<open>std::lock_guard<std::mutex> lock(indexMutex)\<close> in a thread that owns
    \<^verbatim>\<open>indexMutex\<close>. \<^verbatim>\<open>std::mutex\<close> is not recursive: the behaviour is undefined, and with
    the mutex of the platform the thread waits for itself and the call never returns.
  \<^item> \<open>Uninitialised\<close>: the value of a variable that was never written is used.
  A call that returns gives \<open>Inr\<close> of its results. The guard unlocks the mutex when the
  function returns.
\<close>

datatype failure = Relock | Uninitialised

definition lock_guard :: "DistributedIdiomsServer \<Rightarrow> failure + DistributedIdiomsServer" where
  "lock_guard s = (if indexMutex s then Inl Relock else Inr (s\<lparr> indexMutex := True \<rparr>))"

definition unlock :: "DistributedIdiomsServer \<Rightarrow> DistributedIdiomsServer" where
  "unlock s = s\<lparr> indexMutex := False \<rparr>"

text \<open>
  \<^verbatim>\<open>addIndexedKey\<close> takes the mutex, indexes the record as \<^verbatim>\<open>create_md_index\<close> of
  idioms.cpp does and appends the pair to the object's metadata.
\<close>

definition addIndexedKey ::
  "DistributedIdiomsServer \<Rightarrow> string \<Rightarrow> string \<Rightarrow> int \<Rightarrow> failure + DistributedIdiomsServer" where
  "addIndexedKey s key val objectId =
     (case lock_guard s of
        Inl e \<Rightarrow> Inl e
      | Inr s1 \<Rightarrow>
          Inr (unlock (s1\<lparr> srv_keyTrie :=
                              indexRecord (srv_useSuffixTreeMode s1) (srv_keyTrie s1) key val objectId,
                            srv_objectMetadata :=
                              metadata_push (srv_objectMetadata s1) objectId (key, val) \<rparr>)))"

text \<open>
  \<^verbatim>\<open>executeQuery\<close> takes no lock. It tests the key portion with the chain of
  \<open>classifyPart\<close>, and the value portion with the same chain inside the loop over the
  value tries found: an empty value portion is looked at (undefined behaviour) only if
  that loop runs.
\<close>

definition executeQuery :: "DistributedIdiomsServer \<Rightarrow> string \<Rightarrow> int list option" where
  "executeQuery s query =
     (case classifyPart (keyPortion query) of
        None \<Rightarrow> None
      | Some (kt, kp) \<Rightarrow>
          (let valueTries = keySearch (srv_keyTrie s) kt kp
           in if valueTries = [] then Some []
              else (case classifyPart (valuePortion query) of
                      None \<Rightarrow> None
                    | Some (vt, vp) \<Rightarrow>
                        Some (sort (remdups
                          (concat (map (\<lambda>t. valueSearch t vt vp) valueTries)))))))"

subsection \<open>The index file\<close>

definition newline :: char where
  "newline = CHR 0x0A"

text \<open>
  The text that \<^verbatim>\<open>checkpointIndex\<close> writes, for the entries of the metadata map in the
  order in which the loop visits them.
\<close>

definition checkpoint_text :: "int \<Rightarrow> bool \<Rightarrow> metadata \<Rightarrow> string" where
  "checkpoint_text ident useSuffixMode entries =
     ''IDIOMS_INDEX_V1'' @ [newline] @
     to_string ident @ '' '' @ (if useSuffixMode then ''1'' else ''0'') @ [newline] @
     nat_to_string (length entries) @ [newline] @
     concat (map (\<lambda>(objectId, pairs).
                to_string objectId @ '' '' @ nat_to_string (length pairs) @ [newline] @
                concat (map (\<lambda>(key, val). key @ [newline] @ val @ [newline]) pairs))
             entries)"

text \<open>
  The file \<^verbatim>\<open><dataDir>/server_<id>/index.dat\<close> is its content, or \<open>None\<close> when it does not
  exist. Whether the file can be opened for writing is the environment's choice.
  \<^verbatim>\<open>checkpointIndex\<close> takes the mutex and leaves the server as it was; the result is the
  returned flag and the file afterwards.
\<close>

definition checkpointIndex ::
  "DistributedIdiomsServer \<Rightarrow> bool \<Rightarrow> string option \<Rightarrow> failure + (bool \<times> string option)" where
  "checkpointIndex s canOpen disk =
     (case lock_guard s of
        Inl e \<Rightarrow> Inl e
      | Inr s1 \<Rightarrow>
          if \<not> canOpen then Inr (False, disk)
          else Inr (True, Some (checkpoint_text (serverId s1) (srv_useSuffixTreeMode s1)
                                  (srv_objectMetadata s1))))"

text \<open>
  An input stream: the bytes not yet read and whether the stream is still good. Once a
  read fails or meets the end of the file, every later read does nothing.
  \<^item> \<^verbatim>\<open>std::getline\<close> takes the bytes up to the next newline and drops the newline; on a
    stream that is not good, or at the end of the file, the string stays empty.
  \<^item> \<^verbatim>\<open>file >> n\<close> skips white space and reads an optional sign and decimal digits. With
    no digit it stores 0 and fails; out of the range of \<^verbatim>\<open>int\<close> it stores the nearest
    bound and fails; on a stream that is not good, or when only white space is left, it
    stores nothing: the result \<open>None\<close> is a variable left uninitialised.
  \<^item> \<^verbatim>\<open>file.ignore()\<close> drops one byte.
\<close>

record istream =
  buf :: string
  good :: bool

definition is_space :: "char \<Rightarrow> bool" where
  "is_space c = (c \<in> set [CHR '' '', CHR 0x09, CHR 0x0A, CHR 0x0B, CHR 0x0C, CHR 0x0D])"

definition is_digit :: "char \<Rightarrow> bool" where
  "is_digit c = (c \<in> set ''0123456789'')"

definition digits_value :: "string \<Rightarrow> int" where
  "digits_value ds = foldl (\<lambda>a c. a * 10 + (of_char c - 48)) 0 ds"

definition getline :: "istream \<Rightarrow> string \<times> istream" where
  "getline st =
     (if \<not> good st then ([], st)
      else if buf st = [] then ([], st\<lparr> good := False \<rparr>)
      else (takeWhile (\<lambda>c. c \<noteq> newline) (buf st),
            st\<lparr> buf := drop 1 (dropWhile (\<lambda>c. c \<noteq> newline) (buf st)) \<rparr>))"

definition read_int :: "istream \<Rightarrow> int option \<times> istream" where
  "read_int st =
     (if \<not> good st then (None, st)
      else
        (let b = dropWhile is_space (buf st) in
         if b = [] then (None, \<lparr> buf = [], good = False \<rparr>)
         else
           (let negative = (hd b = CHR ''-'');
                b1 = (if hd b = CHR ''-'' \<or> hd b = CHR ''+'' then tl b else b);
                ds = takeWhile is_digit b1;
                rest = dropWhile is_digit b1;
                v = (if negative then - digits_value ds else digits_value ds)
            in if ds = [] then (Some 0, \<lparr> buf = b1, good = False \<rparr>)
               else if v > INT_MAX then (Some INT_MAX, \<lparr> buf = rest, good = False \<rparr>)
               else if v < INT_MIN then (Some INT_MIN, \<lparr> buf = rest, good = False \<rparr>)
               else (Some v, \<lparr> buf = rest, good = True \<rparr>))))"

definition ignore :: "istream \<Rightarrow> istream" where
  "ignore st =
     (if \<not> good st then st
      else if buf st = [] then st\<lparr> good := False \<rparr>
      else st\<lparr> buf := tl (buf st) \<rparr>)"

text \<open>
  The inner loop of \<^verbatim>\<open>recoverIndex\<close>: \<open>n\<close> times two lines, each pair replayed through a
  call of \<^verbatim>\<open>addIndexedKey\<close> on the server as it is at that point, its mutex included.
\<close>

fun readPairs ::
  "nat \<Rightarrow> int \<Rightarrow> istream \<Rightarrow> DistributedIdiomsServer
   \<Rightarrow> failure + (istream \<times> DistributedIdiomsServer)" where
  "readPairs 0 objectId st s = Inr (st, s)"
| "readPairs (Suc j) objectId st s =
     (let (key, st1) = getline st;
          (val, st2) = getline st1
      in case addIndexedKey s key val objectId of
           Inl e \<Rightarrow> Inl e
         | Inr s' \<Rightarrow> readPairs j objectId st2 s')"

text \<open>
  The outer loop: \<open>n\<close> times an object id and a count, then the pairs. A count left
  uninitialised is read by the loop condition.
\<close>

fun readObjects ::
  "nat \<Rightarrow> istream \<Rightarrow> DistributedIdiomsServer \<Rightarrow> failure + DistributedIdiomsServer" where
  "readObjects 0 st s = Inr s"
| "readObjects (Suc i) st s =
     (let (objectId, st1) = read_int st;
          (metadataCount, st2) = read_int st1;
          st3 = ignore st2
      in case metadataCount of
           None \<Rightarrow> Inl Uninitialised
         | Some mc \<Rightarrow>
             (case objectId of
                None \<Rightarrow> Inl Uninitialised
              | Some oid \<Rightarrow>
                  (case readPairs (nat mc) oid st3 s of
                     Inl e \<Rightarrow> Inl e
                   | Inr (st4, s') \<Rightarrow> readObjects i st4 s')))"

text \<open>
  \<^verbatim>\<open>recoverIndex\<close> takes the mutex in its first statement and holds it until it returns, so
  through both loops. The result is the returned flag and the server afterwards.
\<close>

definition recoverIndex ::
  "DistributedIdiomsServer \<Rightarrow> string option \<Rightarrow> failure + (bool \<times> DistributedIdiomsServer)" where
  "recoverIndex s disk =
     (case lock_guard s of
        Inl e \<Rightarrow> Inl e
      | Inr s0 \<Rightarrow>
          (case disk of
             None \<Rightarrow> Inr (False, unlock s0)
           | Some content \<Rightarrow>
               (let (version, st1) = getline \<lparr> buf = content, good = True \<rparr> in
                if version \<noteq> ''IDIOMS_INDEX_V1'' then Inr (False, unlock s0)
                else
                  (let (storedServerId, st2) = read_int st1;
                       (storedSuffixMode, st3) = read_int st2
                   in case storedServerId of
                        None \<Rightarrow> Inl Uninitialised
                      | Some stored \<Rightarrow>
                          if stored \<noteq> serverId s0 then Inr (False, unlock s0)
                          else
                            (let s1 = s0\<lparr> srv_objectMetadata := [],
                                           srv_keyTrie := KeyTrie_init (srv_useSuffixTreeMode s0) \<rparr>;
                                 (objectCount, st4) = read_int st3
                             in case objectCount of
                                  None \<Rightarrow> Inl Uninitialised
                                | Some n \<Rightarrow>
                                    (case readObjects (nat n) st4 s1 of
                                       Inl e \<Rightarrow> Inl e
                                     | Inr s2 \<Rightarrow> Inr (True, unlock s2)))))))"

text \<open>A sequence of \<^verbatim>\<open>addIndexedKey\<close> calls on a server.\<close>

fun addIndexedKeys ::
  "DistributedIdiomsServer \<Rightarrow> (string \<times> string \<times> int) list \<Rightarrow> failure + DistributedIdiomsServer" where
  "addIndexedKeys s [] = Inr s"
| "addIndexedKeys s ((key, val, objectId) # records) =
     (case addIndexedKey s key val objectId of
        Inl e \<Rightarrow> Inl e
      | Inr s' \<Rightarrow> addIndexedKeys s' records)"
section \<open>Properties of the consistent hash ring\<close>


lemma ring_entries_servers:
  "snd ` set (ring_entries n) = {0..<n}"
proof -
  have "snd ` set (ring_entries n) = (\<Union>server\<in>{0..<nat n}. {int server})"
    unfolding ring_entries_def set_concat set_map image_UN image_image
    by (simp add: RING_SIZE_def image_constant_conv)
  also have "\<dots> = int ` {0..<nat n}"
    by auto
  also have "\<dots> = {0..<n}"
  proof (rule set_eqI)
    fix x :: int
    show "x \<in> int ` {0..<nat n} \<longleftrightarrow> x \<in> {0..<n}"
    proof
      assume "x \<in> int ` {0..<nat n}"
      then show "x \<in> {0..<n}" by auto
    next
      assume "x \<in> {0..<n}"
      then have "nat x \<in> {0..<nat n}" "x = int (nat x)" by auto
      then show "x \<in> int ` {0..<nat n}" by (rule_tac image_eqI)
    qed
  qed
  finally show ?thesis .
qed

lemma ring_init_servers:
  "snd ` set (ring (ConsistentHash_init n)) = {0..<n}"
  by (simp add: ConsistentHash_init_def sortRing_def ring_entries_servers)

lemma replicaLoop_find_next:
  assumes "it < length r" and "0 < d"
    and "snd (r ! ((it + d) mod length r)) \<notin> U"
    and "int (card U) < to_size_t b"
  shows "\<exists>it'<length r. snd (r ! it') \<notin> U \<and>
           replicaLoop r b it U servers =
           replicaLoop r b it' (insert (snd (r ! it')) U) (servers @ [snd (r ! it')])"
  using assms
proof (induction d arbitrary: it)
  case 0
  then show ?case by simp
next
  case (Suc d)
  define it1 where "it1 = (if Suc it = length r then 0 else Suc it)"
  have it1: "it1 < length r" "it1 = Suc it mod length r"
    using Suc.prems(1) by (auto simp: it1_def)
  show ?case
  proof (cases "snd (r ! it1) \<in> U")
    case False
    then have "replicaLoop r b it U servers =
        replicaLoop r b it1 (insert (snd (r ! it1)) U) (servers @ [snd (r ! it1)])"
      using Suc.prems(4) by (subst replicaLoop.simps) (simp add: it1_def Let_def)
    with False it1(1) show ?thesis by blast
  next
    case True
    then have step: "replicaLoop r b it U servers = replicaLoop r b it1 U servers"
      using Suc.prems(4) by (subst replicaLoop.simps) (simp add: it1_def Let_def)
    have "(it1 + d) mod length r = (it + Suc d) mod length r"
      by (simp add: it1(2) mod_add_left_eq)
    then have new: "snd (r ! ((it1 + d) mod length r)) \<notin> U"
      using Suc.prems(3) by simp
    have "0 < d"
    proof (rule ccontr)
      assume "\<not> 0 < d"
      then have "d = 0" by simp
      with new it1(1) True show False by simp
    qed
    from Suc.IH [OF it1(1) this new Suc.prems(4)] step show ?thesis by simp
  qed
qed

lemma replicaLoop_next:
  assumes "it < length r" and "s \<in> snd ` set r" and "s \<notin> U"
    and "int (card U) < to_size_t b"
  shows "\<exists>it'<length r. snd (r ! it') \<notin> U \<and>
           replicaLoop r b it U servers =
           replicaLoop r b it' (insert (snd (r ! it')) U) (servers @ [snd (r ! it')])"
proof -
  from assms(2) obtain j where j: "j < length r" "snd (r ! j) = s"
    by (auto simp: in_set_conv_nth)
  define d where "d = (j + length r - Suc it) mod length r + 1"
  have "(it + d) mod length r = j"
  proof -
    have "(it + d) mod length r = (Suc it + (j + length r - Suc it) mod length r) mod length r"
      by (simp add: d_def)
    also have "\<dots> = (Suc it + (j + length r - Suc it)) mod length r"
      by (rule mod_add_right_eq)
    also have "Suc it + (j + length r - Suc it) = j + length r"
      using assms(1) by linarith
    also have "(j + length r) mod length r = j" using j(1) by simp
    finally show ?thesis .
  qed
  then have "snd (r ! ((it + d) mod length r)) \<notin> U"
    using j(2) assms(3) by simp
  moreover have "0 < d" by (simp add: d_def)
  ultimately show ?thesis
    using replicaLoop_find_next [OF assms(1) _ _ assms(4)] by blast
qed

lemma replicaLoop_result:
  assumes "it < length r" and "U = set servers" and "distinct servers"
    and "set servers \<subseteq> snd ` set r"
    and "to_size_t b = int t" and "t \<le> card (snd ` set r)"
    and "k = t - length servers"
  shows "\<exists>res. replicaLoop r b it U servers = Some res \<and> distinct res \<and>
           length res = max t (length servers) \<and> prefix servers res"
  using assms
proof (induction k arbitrary: it U servers)
  case 0
  then have "card U = length servers"
    by (simp add: distinct_card)
  with 0 have "\<not> int (card U) < to_size_t b" by simp
  then have "replicaLoop r b it U servers = Some servers"
    by (subst replicaLoop.simps) simp
  with 0 show ?case by (simp add: max_def)
next
  case (Suc k)
  have cardU: "card U = length servers"
    using Suc.prems by (simp add: distinct_card)
  with Suc.prems have lt: "int (card U) < to_size_t b" by simp
  have "card U < card (snd ` set r)"
    using cardU Suc.prems by simp
  moreover have "U \<subseteq> snd ` set r" using Suc.prems by simp
  moreover have "U \<noteq> snd ` set r" using calculation(1) by auto
  ultimately obtain s where s: "s \<in> snd ` set r" "s \<notin> U"
    by blast
  from replicaLoop_next [OF Suc.prems(1) s lt, of servers]
  obtain it' where it': "it' < length r" "snd (r ! it') \<notin> U"
    and eq: "replicaLoop r b it U servers =
       replicaLoop r b it' (insert (snd (r ! it')) U) (servers @ [snd (r ! it')])"
    by blast
  let ?s = "snd (r ! it')"
  have "\<exists>res. replicaLoop r b it' (insert ?s U) (servers @ [?s]) = Some res \<and> distinct res \<and>
           length res = max t (length (servers @ [?s])) \<and> prefix (servers @ [?s]) res"
  proof (rule Suc.IH [OF it'(1)])
    show "insert ?s U = set (servers @ [?s])" using Suc.prems by simp
    show "distinct (servers @ [?s])" using Suc.prems it'(2) by simp
    show "set (servers @ [?s]) \<subseteq> snd ` set r"
      using Suc.prems it'(1) by (auto simp: image_iff)
    show "to_size_t b = int t" by fact
    show "t \<le> card (snd ` set r)" by fact
    show "k = t - length (servers @ [?s])" using Suc.prems by simp
  qed
  then obtain res where res: "replicaLoop r b it' (insert ?s U) (servers @ [?s]) = Some res"
    "distinct res" "length res = max t (length (servers @ [?s]))" "prefix (servers @ [?s]) res"
    by blast
  have "prefix servers res" using res(4) by (metis append_prefixD)
  moreover have "max t (length (servers @ [?s])) = max t (length servers)"
    using Suc.prems(7) by (auto simp: max_def)
  ultimately show ?case using eq res by simp
qed


lemma ring_start_less:
  "r \<noteq> [] \<Longrightarrow> ring_start r key < length r"
  using length_takeWhile_le [of "\<lambda>e. fst e < hash64 key" r]
  by (auto simp: ring_start_def lower_bound_def Let_def simp del: length_takeWhile_le)

lemma getReplicaServers_result:
  assumes "1 \<le> n" and r: "1 \<le> r \<and> r < INT_MAX"
  shows "\<exists>servers rest.
           getReplicaServers (ConsistentHash_init n) key r = Some servers \<and>
           int (length servers) = min (r + 1) n \<and>
           distinct servers \<and>
           servers = getServer (ConsistentHash_init n) key # rest"
proof -
  define ch where "ch = ConsistentHash_init n"
  define t where "t = nat (min (r + 1) n)"
  define it where "it = ring_start (ring ch) key"
  have servers: "snd ` set (ring ch) = {0..<n}"
    by (simp add: ch_def ring_init_servers)
  then have nonempty: "ring ch \<noteq> []"
    using assms by auto
  have it: "it < length (ring ch)"
    unfolding it_def by (rule ring_start_less [OF nonempty])
  have num: "ch_numServers ch = n"
    by (simp add: ch_def ConsistentHash_init_def)
  have "0 \<le> min (r + 1) n" "min (r + 1) n < 2 ^ 64"
    using r assms by (auto simp: INT_MAX_def min_def)
  then have bound: "to_size_t (min (r + 1) n) = int t"
    by (simp add: to_size_t_def t_def)
  have t_le: "t \<le> card (snd ` set (ring ch))"
    by (simp add: servers t_def)
  have "\<exists>res. replicaLoop (ring ch) (min (r + 1) n) it {snd (ring ch ! it)}
            [snd (ring ch ! it)] = Some res \<and> distinct res \<and>
          length res = max t (length [snd (ring ch ! it)]) \<and> prefix [snd (ring ch ! it)] res"
  proof (rule replicaLoop_result [OF it _ _ _ bound t_le refl])
    show "{snd (ring ch ! it)} = set [snd (ring ch ! it)]" by simp
    show "distinct [snd (ring ch ! it)]" by simp
    show "set [snd (ring ch ! it)] \<subseteq> snd ` set (ring ch)"
      using it by (auto simp: image_iff)
  qed
  then obtain res where res:
    "replicaLoop (ring ch) (min (r + 1) n) it {snd (ring ch ! it)}
        [snd (ring ch ! it)] = Some res"
    "distinct res" "length res = max t (length [snd (ring ch ! it)])"
    "prefix [snd (ring ch ! it)] res"
    by blast
  have get: "getReplicaServers ch key r = Some res"
    using r nonempty res(1) by (simp add: getReplicaServers_def Let_def it_def num)
  have "1 \<le> t" using r assms by (auto simp: t_def min_def)
  then have len: "int (length res) = min (r + 1) n"
    using res(3) \<open>0 \<le> min (r + 1) n\<close> by (simp add: max_def t_def)
  from res(4) obtain rest where "res = snd (ring ch ! it) # rest"
    by (auto simp: prefix_def)
  then have "res = getServer ch key # rest"
    using nonempty by (simp add: getServer_def it_def)
  with get len res(2) show ?thesis
    unfolding ch_def by blast
qed

lemma dart_getReplicaServers_reserved:
  "r < INT_MAX \<Longrightarrow> \<not> reserve_throws mem (r + 1)
   \<Longrightarrow> dart_getReplicaServers mem ch key r = map_option Inr (getReplicaServers ch key r)"
  by (simp add: dart_getReplicaServers_def getReplicaServers_def Let_def)

lemma reserve_throws_negative:
  "INT_MIN \<le> r \<Longrightarrow> r \<le> - 2 \<Longrightarrow> reserve_throws mem (r + 1)"
proof -
  assume r: "INT_MIN \<le> r" "r \<le> - 2"
  have "(r + 1) mod 2 ^ 64 = (r + 1 + 2 ^ 64) mod 2 ^ 64"
    by (simp only: mod_add_self2)
  also have "\<dots> = r + 1 + 2 ^ 64"
    using r by (intro mod_pos_pos_trivial) (simp_all add: INT_MIN_def)
  finally have "to_size_t (r + 1) > 2 ^ 63"
    using r by (simp add: to_size_t_def INT_MIN_def)
  moreover have "int (min mem MAX_BUCKETS) \<le> 2 ^ 63"
    by (simp add: MAX_BUCKETS_def min_def)
  ultimately show ?thesis by (simp add: reserve_throws_def)
qed

text \<open>
  The function of dart.cpp does not reach its guard when \<^verbatim>\<open>reserve\<close> throws: for every
  \<open>r \<le> - 2\<close> (the count \<open>r + 1\<close> is negative and becomes a \<^verbatim>\<open>size_t\<close> above \<^verbatim>\<open>max_size()\<close>),
  and whenever the memory for \<open>r + 1\<close> buckets is not there.
\<close>

lemma dart_getReplicaServers_throws:
  assumes "r < INT_MAX" and "INT_MIN \<le> r \<and> r \<le> - 2 \<or> reserve_throws mem (r + 1)"
  shows "dart_getReplicaServers mem ch key r = Some (Inl bad_alloc)"
proof -
  have "reserve_throws mem (r + 1)"
    using assms(2) reserve_throws_negative [of r mem] by blast
  then show ?thesis
    using assms(1) by (simp add: dart_getReplicaServers_def)
qed

text \<open>
  Claim C3, as amended. On the ring built for \<open>n \<ge> 1\<close> servers, for every key and every
  replication factor \<open>r\<close> below \<^verbatim>\<open>INT_MAX\<close>:
  \<^item> the function of src4/dart/DART.cpp returns the empty vector when \<open>r \<le> 0\<close>, and when
    \<open>1 \<le> r\<close> it returns (the loop terminates) exactly \<open>min (r + 1) n\<close> pairwise distinct
    server ids, the first of which is \<open>getServer key\<close>;
  \<^item> the function of dart.cpp, when its call of \<^verbatim>\<open>reserve\<close> gets the memory for \<open>r + 1\<close>
    buckets, returns the empty vector for \<open>r = - 1\<close> and \<open>r = 0\<close> and, for \<open>1 \<le> r\<close>, exactly
    \<open>min (r + 1) n\<close> pairwise distinct server ids, the first of which is \<open>getServer key\<close>.
\<close>

theorem getReplicaServers_distinct:
  assumes "1 \<le> n" and "r < INT_MAX"
  shows "(r \<le> 0 \<longrightarrow> getReplicaServers (ConsistentHash_init n) key r = Some []) \<and>
         (1 \<le> r \<longrightarrow>
           (\<exists>servers rest.
              getReplicaServers (ConsistentHash_init n) key r = Some servers \<and>
              int (length servers) = min (r + 1) n \<and>
              distinct servers \<and>
              servers = getServer (ConsistentHash_init n) key # rest)) \<and>
         (- 1 \<le> r \<and> r \<le> 0 \<and> \<not> reserve_throws mem (r + 1) \<longrightarrow>
            dart_getReplicaServers mem (ConsistentHash_init n) key r = Some (Inr [])) \<and>
         (1 \<le> r \<and> \<not> reserve_throws mem (r + 1) \<longrightarrow>
           (\<exists>servers rest.
              dart_getReplicaServers mem (ConsistentHash_init n) key r = Some (Inr servers) \<and>
              int (length servers) = min (r + 1) n \<and>
              distinct servers \<and>
              servers = getServer (ConsistentHash_init n) key # rest))"
proof (intro conjI impI)
  assume "r \<le> 0"
  then show "getReplicaServers (ConsistentHash_init n) key r = Some []"
    by (simp add: getReplicaServers_def)
next
  assume "1 \<le> r"
  with getReplicaServers_result [OF assms(1), of r key] assms(2)
  show "\<exists>servers rest.
          getReplicaServers (ConsistentHash_init n) key r = Some servers \<and>
          int (length servers) = min (r + 1) n \<and>
          distinct servers \<and>
          servers = getServer (ConsistentHash_init n) key # rest"
    by blast
next
  assume "- 1 \<le> r \<and> r \<le> 0 \<and> \<not> reserve_throws mem (r + 1)"
  then show "dart_getReplicaServers mem (ConsistentHash_init n) key r = Some (Inr [])"
    using assms(2) by (simp add: dart_getReplicaServers_def)
next
  assume r: "1 \<le> r \<and> \<not> reserve_throws mem (r + 1)"
  from getReplicaServers_result [OF assms(1), of r key] r assms(2)
  obtain servers rest where
    "getReplicaServers (ConsistentHash_init n) key r = Some servers"
    "int (length servers) = min (r + 1) n" "distinct servers"
    "servers = getServer (ConsistentHash_init n) key # rest"
    by blast
  moreover have "dart_getReplicaServers mem (ConsistentHash_init n) key r
      = map_option Inr (getReplicaServers (ConsistentHash_init n) key r)"
    using r assms(2) by (simp add: dart_getReplicaServers_reserved)
  ultimately show "\<exists>servers rest.
          dart_getReplicaServers mem (ConsistentHash_init n) key r = Some (Inr servers) \<and>
          int (length servers) = min (r + 1) n \<and>
          distinct servers \<and>
          servers = getServer (ConsistentHash_init n) key # rest"
    by simp
qed

text \<open>
  The theorem at four servers, the key \<^verbatim>\<open>StageX\<close>, \<open>r = 1\<close> and memory for 16 buckets: both
  functions return two distinct servers, the first of which is \<open>getServer\<close>'s.
\<close>

theorem getReplicaServers_distinct_witness:
  "(\<exists>servers rest.
     getReplicaServers (ConsistentHash_init 4) ''StageX'' 1 = Some servers \<and>
     length servers = 2 \<and> distinct servers \<and>
     servers = getServer (ConsistentHash_init 4) ''StageX'' # rest) \<and>
   (\<exists>servers rest.
     dart_getReplicaServers 16 (ConsistentHash_init 4) ''StageX'' 1 = Some (Inr servers) \<and>
     length servers = 2 \<and> distinct servers \<and>
     servers = getServer (ConsistentHash_init 4) ''StageX'' # rest)"
proof -
  have "\<not> reserve_throws 16 (1 + 1)"
    by (simp add: reserve_throws_def to_size_t_def MAX_BUCKETS_def)
  with getReplicaServers_distinct [where n = 4 and r = 1 and mem = 16 and key = "''StageX''"]
  show ?thesis
    by (simp add: INT_MAX_def)
qed

text \<open>
  Claim C3 as stated fails at \<open>r = 0\<close>, in both files: the guard
  \<^verbatim>\<open>replicationFactor <= 0\<close> returns the empty vector, not the \<open>min (0 + 1) n = 1\<close> ids the
  claim asks for.
\<close>

theorem getReplicaServers_zero_factor:
  "getReplicaServers (ConsistentHash_init 4) ''StageX'' 0 = Some [] \<and>
   dart_getReplicaServers 16 (ConsistentHash_init 4) ''StageX'' 0 = Some (Inr []) \<and>
   int (length ([] :: int list)) \<noteq> min (0 + 1) 4"
  by (simp add: getReplicaServers_def dart_getReplicaServers_def reserve_throws_def
      to_size_t_def MAX_BUCKETS_def INT_MAX_def)
section \<open>Properties of the virtual-node pool\<close>


lemma addPrefixes_prefix:
  "prefix vns (addPrefixes vns ps)"
proof (induction ps arbitrary: vns)
  case Nil
  then show ?case by simp
next
  case (Cons p ps)
  from Cons [of "vns @ [\<lparr> getId = of_nat (length vns), getPrefix = p \<rparr>]"]
  show ?case by (auto dest: append_prefixD)
qed

lemma addPrefixes_bounded:
  "length vns \<le> NUM_VIRTUAL_NODES \<Longrightarrow> length (addPrefixes vns ps) \<le> NUM_VIRTUAL_NODES"
  by (induction ps arbitrary: vns) auto

lemma addPrefixes_ids:
  "ids_in_order vns \<Longrightarrow> ids_in_order (addPrefixes vns ps)"
proof (induction ps arbitrary: vns)
  case Nil
  then show ?case by simp
next
  case (Cons p ps)
  have "ids_in_order (vns @ [\<lparr> getId = of_nat (length vns), getPrefix = p \<rparr>])"
    using Cons.prems by (auto simp: ids_in_order_def nth_append less_Suc_eq)
  from Cons.IH [OF this] Cons.prems show ?case by simp
qed

lemma addPrefixes_all:
  "length vns + length ps \<le> NUM_VIRTUAL_NODES \<Longrightarrow>
   map getPrefix (addPrefixes vns ps) = map getPrefix vns @ ps"
  by (induction ps arbitrary: vns) auto

lemma fillVirtualNodes_invariant:
  assumes "length vns \<le> NUM_VIRTUAL_NODES" and "ids_in_order vns"
  shows "length (fillVirtualNodes vns) = NUM_VIRTUAL_NODES \<and>
         ids_in_order (fillVirtualNodes vns) \<and> prefix vns (fillVirtualNodes vns)"
  using assms
proof (induction vns rule: fillVirtualNodes.induct)
  case (1 vns)
  show ?case
  proof (cases "length vns < NUM_VIRTUAL_NODES")
    case True
    have "length (addPrefixes vns prefixes_pool) \<le> NUM_VIRTUAL_NODES"
      using "1.prems"(1) by (rule addPrefixes_bounded)
    moreover have "ids_in_order (addPrefixes vns prefixes_pool)"
      using "1.prems"(2) by (rule addPrefixes_ids)
    ultimately have IH: "length (fillVirtualNodes (addPrefixes vns prefixes_pool)) = NUM_VIRTUAL_NODES \<and>
         ids_in_order (fillVirtualNodes (addPrefixes vns prefixes_pool)) \<and>
         prefix (addPrefixes vns prefixes_pool) (fillVirtualNodes (addPrefixes vns prefixes_pool))"
      using "1.IH" [OF True] by blast
    have "fillVirtualNodes vns = fillVirtualNodes (addPrefixes vns prefixes_pool)"
      using True by (subst fillVirtualNodes.simps) simp
    moreover have "prefix vns (fillVirtualNodes (addPrefixes vns prefixes_pool))"
      using IH addPrefixes_prefix [of vns prefixes_pool] by (meson prefix_order.trans)
    ultimately show ?thesis using IH by simp
  next
    case False
    then have "fillVirtualNodes vns = vns"
      by (subst fillVirtualNodes.simps) simp
    with False "1.prems" show ?thesis by simp
  qed
qed

lemma pool_length: "length prefixes_pool = 100"
  by (simp add: prefixes_pool_def specialChars_def commonPrefixes_def)

lemma ids_in_order_Nil: "ids_in_order []"
  by (simp add: ids_in_order_def)

lemma empty_prefix_in_pool: "[] \<in> set prefixes_pool"
  by (simp add: prefixes_pool_def)

lemma fillVirtualNodes_pool:
  "length (fillVirtualNodes []) = NUM_VIRTUAL_NODES"
  "ids_in_order (fillVirtualNodes [])"
  "\<exists>vnode \<in> set (fillVirtualNodes []). getPrefix vnode = []"
proof -
  have start: "length ([] :: VirtualNode list) \<le> NUM_VIRTUAL_NODES"
    by simp
  from fillVirtualNodes_invariant [OF start ids_in_order_Nil]
  show "length (fillVirtualNodes []) = NUM_VIRTUAL_NODES" "ids_in_order (fillVirtualNodes [])"
    by blast+
  define first where "first = addPrefixes [] prefixes_pool"
  have "length ([] :: VirtualNode list) + length prefixes_pool \<le> NUM_VIRTUAL_NODES"
    by (simp add: pool_length NUM_VIRTUAL_NODES_def)
  from addPrefixes_all [OF this]
  have "map getPrefix first = prefixes_pool"
    by (simp add: first_def)
  then have "[] \<in> getPrefix ` set first"
    using empty_prefix_in_pool by (metis list.set_map)
  then obtain vnode where vnode: "vnode \<in> set first" "getPrefix vnode = []"
    by auto
  have unfold: "fillVirtualNodes [] = fillVirtualNodes first"
    unfolding first_def by (subst fillVirtualNodes.simps) (simp add: NUM_VIRTUAL_NODES_def)
  have "length first \<le> NUM_VIRTUAL_NODES"
    unfolding first_def by (rule addPrefixes_bounded [OF start])
  moreover have "ids_in_order first"
    unfolding first_def by (rule addPrefixes_ids [OF ids_in_order_Nil])
  ultimately have "prefix first (fillVirtualNodes first)"
    using fillVirtualNodes_invariant by blast
  then have "set first \<subseteq> set (fillVirtualNodes [])"
    unfolding unfold by (rule set_mono_prefix)
  with vnode show "\<exists>vnode \<in> set (fillVirtualNodes []). getPrefix vnode = []"
    by blast
qed

text \<open>
  Claim C7. The router built by the constructor holds exactly 256 virtual nodes, one of
  them with the empty prefix, the node at position \<open>j\<close> of the vector having id \<open>j\<close>; and
  for every non-empty key \<^verbatim>\<open>getVirtualNodeId\<close> returns an id below 256: the id of the first
  virtual node, in id order, whose prefix is a prefix of the key.
\<close>

theorem getVirtualNodeId_first_match:
  assumes "key \<noteq> []"
  shows "length (virtualNodes (DARTRouter_init n ratio)) = 256 \<and>
         (\<exists>vnode \<in> set (virtualNodes (DARTRouter_init n ratio)). getPrefix vnode = []) \<and>
         (\<forall>j<256. unat (getId (virtualNodes (DARTRouter_init n ratio) ! j)) = j) \<and>
         (\<exists>i vid. getVirtualNodeId (DARTRouter_init n ratio) key = Some vid \<and>
            unat vid = i \<and> i < 256 \<and>
            getId (virtualNodes (DARTRouter_init n ratio) ! i) = vid \<and>
            prefix (getPrefix (virtualNodes (DARTRouter_init n ratio) ! i)) key \<and>
            (\<forall>j<i. \<not> prefix (getPrefix (virtualNodes (DARTRouter_init n ratio) ! j)) key))"
proof -
  define vns where "vns = virtualNodes (DARTRouter_init n ratio)"
  have vns: "vns = fillVirtualNodes []"
    by (simp add: vns_def DARTRouter_init_def Let_def)
  have len: "length vns = 256"
    using fillVirtualNodes_pool(1) by (simp add: vns NUM_VIRTUAL_NODES_def)
  have ids: "ids_in_order vns"
    using fillVirtualNodes_pool(2) by (simp add: vns)
  obtain e where e: "e \<in> set vns" "getPrefix e = []"
    using fillVirtualNodes_pool(3) unfolding vns by blast
  then have "containsKey e key"
    by (simp add: containsKey_def starts_with_def)
  with e(1) have "find (\<lambda>vnode. containsKey vnode key) vns \<noteq> None"
    by (auto simp: find_None_iff)
  then obtain v where v: "find (\<lambda>vnode. containsKey vnode key) vns = Some v"
    by auto
  then obtain i where i: "i < length vns" "containsKey (vns ! i) key" "v = vns ! i"
    "\<forall>j<i. \<not> containsKey (vns ! j) key"
    unfolding find_Some_iff by blast
  have id: "getId (vns ! i) = of_nat i"
    using ids i(1) by (simp add: ids_in_order_def)
  have "unat (of_nat i :: 32 word) = i"
    using i(1) len by (simp add: unat_of_nat)
  moreover have "getVirtualNodeId (DARTRouter_init n ratio) key = Some (getId (vns ! i))"
    using v i(3) by (simp add: getVirtualNodeId_def vns_def)
  ultimately have "\<exists>i vid. getVirtualNodeId (DARTRouter_init n ratio) key = Some vid \<and>
            unat vid = i \<and> i < 256 \<and> getId (vns ! i) = vid \<and>
            prefix (getPrefix (vns ! i)) key \<and>
            (\<forall>j<i. \<not> prefix (getPrefix (vns ! j)) key)"
    using i id len by (auto simp: containsKey_def starts_with_def)
  moreover have "\<forall>j<256. unat (getId (vns ! j)) = j"
    using ids len by (simp add: ids_in_order_def unat_of_nat)
  ultimately show ?thesis
    using len e unfolding vns_def by blast
qed

theorem getVirtualNodeId_first_match_witness:
  "\<exists>i vid. getVirtualNodeId (DARTRouter_init 4 (1/10)) ''StageX'' = Some vid \<and>
      unat vid = i \<and> i < 256 \<and>
      getId (virtualNodes (DARTRouter_init 4 (1/10)) ! i) = vid \<and>
      prefix (getPrefix (virtualNodes (DARTRouter_init 4 (1/10)) ! i)) ''StageX''"
proof -
  have "''StageX'' \<noteq> []" by simp
  from getVirtualNodeId_first_match [OF this, of 4 "1/10"]
  show ?thesis by blast
qed


section \<open>Properties of the popularity tracker and of the adaptive router\<close>

lemma recordQuery_fresh:
  "keyPopularity pt p = None \<Longrightarrow>
   keyPopularity (recordQuery pt p w now) p = Some w \<and>
   lastAccess (recordQuery pt p w now) p = Some now \<and>
   popularityThreshold (recordQuery pt p w now) = popularityThreshold pt \<and>
   decayFactor (recordQuery pt p w now) = decayFactor pt"
  by (simp add: recordQuery_def updatePopularityWithDecay_def actualIncrement_def Let_def)

lemma recordQuery_at_once:
  "keyPopularity pt p = Some v \<Longrightarrow> lastAccess pt p = Some now \<Longrightarrow>
   v \<le> popularityThreshold pt \<Longrightarrow>
   keyPopularity (recordQuery pt p w now) p = Some (v + w) \<and>
   lastAccess (recordQuery pt p w now) p = Some now \<and>
   popularityThreshold (recordQuery pt p w now) = popularityThreshold pt \<and>
   decayFactor (recordQuery pt p w now) = decayFactor pt"
  by (simp add: recordQuery_def updatePopularityWithDecay_def actualIncrement_def
      calculateDecay_def Let_def)

text \<open>
  Claim C4 at the exact query \<^verbatim>\<open>StageX=300.00\<close> on a fresh adaptive router: the key portion
  \<^verbatim>\<open>StageX\<close> holds no star, yet the tracker is left as a call with weight 1 leaves it, with
  the score 1 where a weight of 2 would give the score 2.
\<close>

theorem getDestinationServers_records_default_weight:
  "getDestinationServers_record (AdaptiveDARTRouter_init 8 (1/10) 8 5 (1/20) True)
       ''StageX=300.00'' 0
     = AdaptiveDARTRouter_recordQuery (AdaptiveDARTRouter_init 8 (1/10) 8 5 (1/20) True)
         ''StageX'' 0 \<and>
   CHR ''*'' \<notin> set (keyPortion ''StageX=300.00'') \<and>
   keyPopularity (popularityTracker
       (getDestinationServers_record (AdaptiveDARTRouter_init 8 (1/10) 8 5 (1/20) True)
          ''StageX=300.00'' 0)) ''StageX'' = Some 1 \<and>
   keyPopularity (recordQuery
       (popularityTracker (AdaptiveDARTRouter_init 8 (1/10) 8 5 (1/20) True))
          ''StageX'' 2 0) ''StageX'' = Some 2"
proof -
  let ?rt = "AdaptiveDARTRouter_init 8 (1/10) 8 5 (1/20) True"
  have tracker: "popularityTracker ?rt = PopularityTracker_init (truncate_to_int (8 * (1/10))) 8 5 (1/20)"
    and enabled: "adaptiveReplicationEnabled ?rt"
    by (simp_all add: AdaptiveDARTRouter_init_def DARTRouter.extend_def AdaptiveDARTRouter.fields_def
        DARTRouter_init_def Let_def)
  have fresh: "keyPopularity (popularityTracker ?rt) ''StageX'' = None"
    by (simp add: tracker PopularityTracker_init_def)
  have key: "keyPortion ''StageX=300.00'' = ''StageX''"
    by (simp add: keyPortion_def)
  have step: "getDestinationServers_record ?rt ''StageX=300.00'' 0
      = AdaptiveDARTRouter_recordQuery ?rt ''StageX'' 0"
    by (simp only: getDestinationServers_record_def key Let_def enabled if_True)
  have "keyPopularity (popularityTracker (AdaptiveDARTRouter_recordQuery ?rt ''StageX'' 0)) ''StageX''
      = Some 1"
    using recordQuery_fresh [OF fresh, of 1 0]
    by (simp add: AdaptiveDARTRouter_recordQuery_def enabled)
  moreover have "keyPopularity (recordQuery (popularityTracker ?rt) ''StageX'' 2 0) ''StageX'' = Some 2"
    using recordQuery_fresh [OF fresh, of 2 0] by simp
  ultimately show ?thesis
    using step key by simp
qed

text \<open>
  Claim C5 at a concrete state. Six queries for \<open>k\<close> at time 0 (threshold 5, decay 0.05 per
  hour) store the score 6. Ten hours later the effective score \<open>6 * exp (- 1/2)\<close> is below
  the threshold, so the increment the claim describes is the plain weight 1; the code
  compares the stored 6 with the threshold and multiplies the weight by
  \<open>1 + log 10 (6 / 5)\<close>.
\<close>

theorem recordQuery_bonus_uses_stored_score:
  "keyPopularity (foldl (\<lambda>pt t. recordQuery pt ''k'' 1 t)
       (PopularityTracker_init 1 8 5 (1/20)) [0, 0, 0, 0, 0, 0]) ''k'' = Some 6 \<and>
   getPopularity (foldl (\<lambda>pt t. recordQuery pt ''k'' 1 t)
       (PopularityTracker_init 1 8 5 (1/20)) [0, 0, 0, 0, 0, 0]) ''k'' 36000000 < 5 \<and>
   effectiveIncrement (foldl (\<lambda>pt t. recordQuery pt ''k'' 1 t)
       (PopularityTracker_init 1 8 5 (1/20)) [0, 0, 0, 0, 0, 0]) ''k'' 1 36000000 = 1 \<and>
   actualIncrement (foldl (\<lambda>pt t. recordQuery pt ''k'' 1 t)
       (PopularityTracker_init 1 8 5 (1/20)) [0, 0, 0, 0, 0, 0]) ''k'' 1 = 1 + log 10 (6 / 5) \<and>
   1 < actualIncrement (foldl (\<lambda>pt t. recordQuery pt ''k'' 1 t)
       (PopularityTracker_init 1 8 5 (1/20)) [0, 0, 0, 0, 0, 0]) ''k'' 1"
proof -
  define pt0 where "pt0 = PopularityTracker_init 1 8 5 (1/20)"
  define pt where "pt = foldl (\<lambda>pt t. recordQuery pt ''k'' 1 t) pt0 [0, 0, 0, 0, 0, 0]"
  have p0: "keyPopularity pt0 ''k'' = None" "popularityThreshold pt0 = 5" "decayFactor pt0 = 1/20"
    by (simp_all add: pt0_def PopularityTracker_init_def)
  define r where "r = (\<lambda>pt. recordQuery pt ''k'' 1 0)"
  have s1: "keyPopularity (r pt0) ''k'' = Some 1 \<and> lastAccess (r pt0) ''k'' = Some 0 \<and>
      popularityThreshold (r pt0) = 5 \<and> decayFactor (r pt0) = 1/20"
    using recordQuery_fresh [OF p0(1), of 1 0] p0 by (simp add: r_def)
  have next_step: "keyPopularity (r q) ''k'' = Some (v + 1) \<and> lastAccess (r q) ''k'' = Some 0 \<and>
      popularityThreshold (r q) = 5 \<and> decayFactor (r q) = 1/20"
    if "keyPopularity q ''k'' = Some v \<and> lastAccess q ''k'' = Some 0 \<and>
      popularityThreshold q = 5 \<and> decayFactor q = 1/20" and "v \<le> 5" for q v
    using recordQuery_at_once [of q "''k''" v 0 1] that by (simp add: r_def)
  have s2: "keyPopularity (r (r pt0)) ''k'' = Some 2 \<and> lastAccess (r (r pt0)) ''k'' = Some 0 \<and>
      popularityThreshold (r (r pt0)) = 5 \<and> decayFactor (r (r pt0)) = 1/20"
    using next_step [OF s1] by simp
  have s3: "keyPopularity (r (r (r pt0))) ''k'' = Some 3 \<and> lastAccess (r (r (r pt0))) ''k'' = Some 0 \<and>
      popularityThreshold (r (r (r pt0))) = 5 \<and> decayFactor (r (r (r pt0))) = 1/20"
    using next_step [OF s2] by simp
  have s4: "keyPopularity (r (r (r (r pt0)))) ''k'' = Some 4 \<and>
      lastAccess (r (r (r (r pt0)))) ''k'' = Some 0 \<and>
      popularityThreshold (r (r (r (r pt0)))) = 5 \<and> decayFactor (r (r (r (r pt0)))) = 1/20"
    using next_step [OF s3] by simp
  have s5: "keyPopularity (r (r (r (r (r pt0))))) ''k'' = Some 5 \<and>
      lastAccess (r (r (r (r (r pt0))))) ''k'' = Some 0 \<and>
      popularityThreshold (r (r (r (r (r pt0))))) = 5 \<and> decayFactor (r (r (r (r (r pt0))))) = 1/20"
    using next_step [OF s4] by simp
  have s6: "keyPopularity (r (r (r (r (r (r pt0)))))) ''k'' = Some 6 \<and>
      lastAccess (r (r (r (r (r (r pt0)))))) ''k'' = Some 0 \<and>
      popularityThreshold (r (r (r (r (r (r pt0)))))) = 5 \<and>
      decayFactor (r (r (r (r (r (r pt0)))))) = 1/20"
    using next_step [OF s5] by simp
  have pt: "pt = r (r (r (r (r (r pt0)))))"
    by (simp add: pt_def r_def)
  have stored: "keyPopularity pt ''k'' = Some 6" "lastAccess pt ''k'' = Some 0"
    "popularityThreshold pt = 5" "decayFactor pt = 1/20"
    using s6 by (simp_all add: pt)
  have "exp (1/2 :: real) \<ge> 1 + 1/2"
    by (rule exp_ge_add_one_self)
  then have "exp (- (1/2) :: real) \<le> 2/3"
    by (simp add: exp_minus field_simps)
  then have small: "6 * exp (- (1/2) :: real) < 5"
    by simp
  have pop: "getPopularity pt ''k'' 36000000 = 6 * exp (- (1/2))"
    by (simp add: getPopularity_def calculateDecay_def stored Let_def)
  have eff: "effectiveIncrement pt ''k'' 1 36000000 = 1"
    using small by (simp add: effectiveIncrement_def pop stored Let_def)
  have act: "actualIncrement pt ''k'' 1 = 1 + log 10 (6 / 5)"
    by (simp add: actualIncrement_def stored)
  have "0 < log 10 (6 / 5 :: real)"
    by simp
  with act have "1 < actualIncrement pt ''k'' 1"
    by simp
  with stored(1) pop small eff act show ?thesis
    unfolding pt_def pt0_def by simp
qed

section \<open>Properties of the fault manager\<close>

lemma checkEntry_ordered:
  "ordered_transition (CheckHeartbeats now) s (checkEntry fm d s)"
  by (cases s) (simp_all add: checkEntry_def ordered_transition_def)

lemma checkHeartbeats_status:
  "serverStatus (checkHeartbeats fm now) rank =
     map_option (checkEntry fm (now - heartbeatOf fm rank)) (serverStatus fm rank)"
  by (simp add: checkHeartbeats_def split: option.splits)

lemma processHeartbeat_status_other:
  "rank \<noteq> serverRank \<Longrightarrow>
   serverStatus (processHeartbeat fm serverRank now) rank = serverStatus fm rank"
  by (simp add: processHeartbeat_def Let_def)

lemma processHeartbeat_status_same:
  "serverStatus (processHeartbeat fm serverRank now) serverRank =
     Some (if statusOf fm serverRank = SUSPECT \<or> statusOf fm serverRank = RECOVERING
           then ACTIVE else statusOf fm serverRank)"
  by (simp add: processHeartbeat_def Let_def statusOf_def)

lemma notifyServerFailure_status:
  "serverStatus (notifyServerFailure fm serverRank) rank =
     (if rank = serverRank then Some CONFIRMED_DOWN else serverStatus fm rank)"
  by (simp add: notifyServerFailure_def Let_def initiateRecovery_def)

text \<open>
  Claim C8, as amended. One step of the fault manager from any state: a server that has
  a status keeps one, and
  \<^item> a heartbeat check or a heartbeat arrival leaves it as it is, moves it one stage
    forward along ACTIVE, SUSPECT, CONFIRMED_DOWN, or (an arrival only) takes it back to
    ACTIVE from SUSPECT or RECOVERING;
  \<^item> a failure notification sets the notified server to CONFIRMED_DOWN from whatever
    status it had and leaves every other server as it was.
\<close>

theorem fm_step_transitions:
  assumes "serverStatus fm rank = Some s"
  shows "\<exists>s'. serverStatus (fm_step fm ev) rank = Some s' \<and>
           (case ev of
              FailureNotification serverRank \<Rightarrow>
                s' = (if rank = serverRank then CONFIRMED_DOWN else s)
            | _ \<Rightarrow> ordered_transition ev s s')"
proof (cases ev)
  case (CheckHeartbeats now)
  then show ?thesis
    using assms checkEntry_ordered [of now s fm "now - heartbeatOf fm rank"]
    by (simp add: checkHeartbeats_status)
next
  case (HeartbeatArrival serverRank now)
  show ?thesis
  proof (cases "rank = serverRank")
    case True
    then have "statusOf fm serverRank = s"
      using assms by (simp add: statusOf_def)
    then show ?thesis
      using HeartbeatArrival True
      by (simp add: processHeartbeat_status_same ordered_transition_def)
  next
    case False
    then show ?thesis
      using HeartbeatArrival assms
      by (simp add: processHeartbeat_status_other ordered_transition_def)
  qed
next
  case (FailureNotification serverRank)
  then show ?thesis
    using assms by (simp add: notifyServerFailure_status)
qed

theorem fm_step_transitions_witness:
  "\<exists>s'. serverStatus (fm_step (FaultManager_init 3 True 0) (CheckHeartbeats 2001)) 1 = Some s' \<and>
         ordered_transition (CheckHeartbeats 2001) ACTIVE s'"
proof -
  have "serverStatus (FaultManager_init 3 True 0) 1 = Some ACTIVE"
    by (simp add: FaultManager_init_def)
  from fm_step_transitions [OF this, of "CheckHeartbeats 2001"]
  show ?thesis by simp
qed

text \<open>
  Claim C8 as stated fails: a failure notification takes an ACTIVE server straight to
  CONFIRMED_DOWN, which is none of the ordered transitions.
\<close>

theorem fm_notify_skips_suspect:
  "serverStatus (FaultManager_init 3 True 0) 1 = Some ACTIVE \<and>
   serverStatus (fm_step (FaultManager_init 3 True 0) (FailureNotification 1)) 1
     = Some CONFIRMED_DOWN \<and>
   \<not> ordered_transition (FailureNotification 1) ACTIVE CONFIRMED_DOWN"
  by (simp add: FaultManager_init_def notifyServerFailure_status ordered_transition_def)

lemma heartbeat_step_keeps_down:
  assumes "serverStatus fm rank = Some CONFIRMED_DOWN" and "heartbeat_driven ev"
  shows "serverStatus (fm_step fm ev) rank = Some CONFIRMED_DOWN"
proof (cases ev)
  case (CheckHeartbeats now)
  then show ?thesis
    using assms by (simp add: checkHeartbeats_status checkEntry_def)
next
  case (HeartbeatArrival serverRank now)
  then show ?thesis
    using assms
    by (cases "rank = serverRank")
       (simp_all add: processHeartbeat_status_same processHeartbeat_status_other statusOf_def)
next
  case (FailureNotification serverRank)
  then show ?thesis using assms by simp
qed

text \<open>
  Claim C10. CONFIRMED_DOWN is absorbing for the heartbeat-driven steps: after any
  sequence of heartbeat arrivals and heartbeat checks, a server that was CONFIRMED_DOWN
  still is.
\<close>

theorem confirmed_down_absorbing:
  assumes "serverStatus fm rank = Some CONFIRMED_DOWN"
    and "list_all heartbeat_driven evs"
  shows "serverStatus (fm_run fm evs) rank = Some CONFIRMED_DOWN"
  using assms unfolding fm_run_def
proof (induction evs arbitrary: fm)
  case Nil
  then show ?case by simp
next
  case (Cons ev evs)
  from Cons.prems have "serverStatus (fm_step fm ev) rank = Some CONFIRMED_DOWN"
    by (simp add: heartbeat_step_keeps_down)
  with Cons show ?case by simp
qed

theorem confirmed_down_absorbing_witness:
  "serverStatus
     (fm_run (notifyServerFailure (FaultManager_init 3 True 0) 1)
        [HeartbeatArrival 1 100, CheckHeartbeats 9000, HeartbeatArrival 1 9001]) 1
   = Some CONFIRMED_DOWN"
proof -
  have "serverStatus (notifyServerFailure (FaultManager_init 3 True 0) 1) 1 = Some CONFIRMED_DOWN"
    by (simp add: notifyServerFailure_status)
  from confirmed_down_absorbing [OF this,
      of "[HeartbeatArrival 1 100, CheckHeartbeats 9000, HeartbeatArrival 1 9001]"]
  show ?thesis by simp
qed

section \<open>Properties of the list-based server of dart.cpp\<close>

text \<open>
  Claim C9 at the query \<^verbatim>\<open>**\<close> on the server that holds the one record
  \<open>(*a, v, 1)\<close>: \<^verbatim>\<open>canHandleQuery\<close> tests the front star first, reads the query as the
  suffix query for \<^verbatim>\<open>*\<close> and finds no indexed suffix equal to it; \<^verbatim>\<open>executeQuery\<close> tests
  the back star first, reads the query as the prefix query for \<^verbatim>\<open>*\<close> and returns object 1.
\<close>

theorem dart_canHandleQuery_false_executeQuery_nonempty:
  "dart_canHandleQuery (dart_addIndexedKey DartServer_init ''*a'' ''v'' 1) ''**'' = Some False \<and>
   dart_executeQuery (dart_addIndexedKey DartServer_init ''*a'' ''v'' 1) ''**'' = Some [1]"
  by (simp add: dart_canHandleQuery_def dart_executeQuery_def dart_addIndexedKey_def
      DartServer_init_def keyPortion_def valuePortion_def substrings_from_def hasSuffix_def
      dart_pattern_def dart_match_def starts_with_def Let_def upt_rec)

section \<open>Properties of the two-layer trie\<close>


subsection \<open>Inserting twice: the second layer\<close>

lemma updateValueNode_twice:
  "updateValueNode p f (updateValueNode p g t) = updateValueNode p (f \<circ> g) t"
  by (induction p arbitrary: t) (simp_all add: Let_def update_conv')

lemma updateValueNode_fixed:
  "valueNodeAt p t = Some n \<Longrightarrow> f n = n \<Longrightarrow> updateValueNode p f t = t"
proof (induction p arbitrary: t)
  case Nil
  then show ?case by simp
next
  case (Cons c cs)
  then obtain child where child: "map_of (v_children t) c = Some child"
    "valueNodeAt cs child = Some n"
    by (auto split: option.splits)
  from Cons.IH [OF child(2) Cons.prems(2)] child(1)
  show ?case by (simp add: update_triv)
qed

lemma markEndOfValue_terminal:
  "valueTerminal i s (markEndOfValue i s n)"
  by (simp add: valueTerminal_def markEndOfValue_def)

lemma markEndOfValue_fixed:
  "valueTerminal i s n \<Longrightarrow> markEndOfValue i s n = n"
  by (cases n) (auto simp: valueTerminal_def markEndOfValue_def List.insert_def)

lemma valueMarked_after:
  "valueMarked i s (updateValueNode p (markEndOfValue i s) t) p"
  by (induction p arbitrary: t)
     (simp_all add: valueMarked_def markEndOfValue_terminal Let_def update_conv')

lemma valueMarked_kept:
  "valueMarked i s t q \<Longrightarrow> valueMarked i s (updateValueNode p (markEndOfValue i s) t) q"
proof (induction p arbitrary: q t)
  case Nil
  then show ?case
    by (cases q) (auto simp: valueMarked_def valueTerminal_def markEndOfValue_def)
next
  case (Cons c cs)
  show ?case
  proof (cases q)
    case Nil
    with Cons.prems show ?thesis
      by (simp add: valueMarked_def valueTerminal_def Let_def)
  next
    case (Cons d ds)
    show ?thesis
    proof (cases "d = c")
      case True
      from Cons.prems Cons obtain child where child: "map_of (v_children t) c = Some child"
        "valueMarked i s child ds"
        using True by (auto simp: valueMarked_def split: option.splits)
      from Cons.IH [OF child(2)] child(1) Cons True show ?thesis
        by (simp add: valueMarked_def Let_def update_conv')
    next
      case False
      with Cons.prems Cons show ?thesis
        by (simp add: valueMarked_def Let_def update_conv')
    qed
  qed
qed

lemma markValues_marked:
  "q \<in> set ps \<or> valueMarked i s t q \<Longrightarrow> valueMarked i s (markValues i s t ps) q"
  unfolding markValues_def
proof (induction ps arbitrary: t)
  case Nil
  then show ?case by simp
next
  case (Cons p ps)
  have "q \<in> set ps \<or> valueMarked i s (updateValueNode p (markEndOfValue i s) t) q"
    using Cons.prems valueMarked_after [of i s p t] valueMarked_kept [of i s t q p] by auto
  from Cons.IH [OF this] show ?case by simp
qed

lemma markValues_fixed:
  "\<forall>q \<in> set ps. valueMarked i s t q \<Longrightarrow> markValues i s t ps = t"
  unfolding markValues_def
proof (induction ps arbitrary: t)
  case Nil
  then show ?case by simp
next
  case (Cons p ps)
  from Cons.prems obtain n where "valueNodeAt p t = Some n" "valueTerminal i s n"
    by (auto simp: valueMarked_def split: option.splits)
  then have "updateValueNode p (markEndOfValue i s) t = t"
    by (simp add: updateValueNode_fixed markEndOfValue_fixed)
  with Cons show ?case by simp
qed

lemma markValues_idem:
  "markValues i s (markValues i s t ps) ps = markValues i s t ps"
  by (rule markValues_fixed) (simp add: markValues_marked)

lemma insertValueWithSuffixes_root:
  "v_root (insertValueWithSuffixes vt val i) = markValues i val (v_root vt) (substrings_from val)"
  "v_useSuffixTreeMode (insertValueWithSuffixes vt val i) = v_useSuffixTreeMode vt"
proof -
  have "val \<noteq> []" if "p \<in> set (substrings_from val)" for p
    using that by (auto simp: substrings_from_def)
  then have "\<forall>p \<in> set ps. val \<noteq> []" if "set ps \<subseteq> set (substrings_from val)" for ps
    using that by auto
  have gen: "set ps \<subseteq> set (substrings_from val) \<Longrightarrow>
     v_root (foldl (\<lambda>t sfx. insertValue t sfx i val) vt ps) = markValues i val (v_root vt) ps \<and>
     v_useSuffixTreeMode (foldl (\<lambda>t sfx. insertValue t sfx i val) vt ps) = v_useSuffixTreeMode vt"
    for ps vt
  proof (induction ps arbitrary: vt)
    case Nil
    then show ?case by (simp add: markValues_def)
  next
    case (Cons p ps)
    then have "val \<noteq> []" by (auto simp: substrings_from_def)
    with Cons show ?case by (simp add: markValues_def insertValue_def)
  qed
  from gen [of "substrings_from val" vt]
  show "v_root (insertValueWithSuffixes vt val i) = markValues i val (v_root vt) (substrings_from val)"
    "v_useSuffixTreeMode (insertValueWithSuffixes vt val i) = v_useSuffixTreeMode vt"
    by (simp_all add: insertValueWithSuffixes_def)
qed

lemma insertValueWithSuffixMode_root:
  "insertValueWithSuffixMode vt val i =
     vt\<lparr> v_root := markValues i val (v_root vt)
            (val # (if v_useSuffixTreeMode vt then substrings_from val else [])) \<rparr>"
  by (rule ValueTrie.equality)
     (simp_all add: insertValueWithSuffixMode_def Let_def insertValueWithSuffixes_root
       insertValue_def markValues_def)

lemma insertValueWithSuffixMode_idem:
  "insertValueWithSuffixMode (insertValueWithSuffixMode vt val i) val i =
   insertValueWithSuffixMode vt val i"
  by (simp add: insertValueWithSuffixMode_root markValues_idem)

lemma insertValue_idem:
  "insertValue (insertValue vt val i []) val i [] = insertValue vt val i []"
  using markValues_idem [of i val "v_root vt" "[val]"]
  by (simp add: insertValue_def markValues_def)

subsection \<open>Inserting twice: the first layer\<close>

lemma updateKeyNode_twice:
  "updateKeyNode p f (updateKeyNode p g t) = updateKeyNode p (f \<circ> g) t"
  by (induction p arbitrary: t) (simp_all add: Let_def update_conv')

lemma updateKeyNode_fixed:
  "keyNodeAt p t = Some n \<Longrightarrow> f n = n \<Longrightarrow> updateKeyNode p f t = t"
proof (induction p arbitrary: t)
  case Nil
  then show ?case by simp
next
  case (Cons c cs)
  then obtain child where child: "map_of (k_children t) c = Some child"
    "keyNodeAt cs child = Some n"
    by (auto split: option.splits)
  from Cons.IH [OF child(2) Cons.prems(2)] child(1)
  show ?case by (simp add: update_triv)
qed

lemma markEndOfKey_terminal:
  "keyTerminal s (markEndOfKey m s n)"
  by (simp add: keyTerminal_def markEndOfKey_def split: option.splits)

lemma markEndOfKey_fixed:
  "keyTerminal s n \<Longrightarrow> markEndOfKey m s n = n"
  by (cases n) (auto simp: keyTerminal_def markEndOfKey_def)

lemma markEndOfKey_keeps:
  "keyTerminal s n \<Longrightarrow> keyTerminal s (markEndOfKey m s n)"
  by (simp add: markEndOfKey_terminal)

lemma onValueTrie_keeps:
  "keyTerminal s n \<Longrightarrow> keyTerminal s (onValueTrie f n)"
  by (simp add: keyTerminal_def onValueTrie_def)

lemma markEndOfKey_children:
  "k_children (markEndOfKey m s n) = k_children n"
  by (simp add: markEndOfKey_def)

lemma onValueTrie_children:
  "k_children (onValueTrie f n) = k_children n"
  by (simp add: onValueTrie_def)

lemma keyMarked_after:
  "keyMarked s (updateKeyNode p (markEndOfKey m s) t) p"
  by (induction p arbitrary: t)
     (simp_all add: keyMarked_def markEndOfKey_terminal Let_def update_conv')

lemma keyMarked_kept:
  assumes "\<And>n. keyTerminal s n \<Longrightarrow> keyTerminal s (g n)"
    and "\<And>n. k_children (g n) = k_children n"
  shows "keyMarked s t q \<Longrightarrow> keyMarked s (updateKeyNode p g t) q"
proof (induction p arbitrary: q t)
  case Nil
  then show ?case
    using assms by (cases q) (auto simp: keyMarked_def split: option.splits)
next
  case (Cons c cs)
  show ?case
  proof (cases q)
    case Nil
    with Cons.prems show ?thesis
      by (simp add: keyMarked_def keyTerminal_def Let_def)
  next
    case (Cons d ds)
    show ?thesis
    proof (cases "d = c")
      case True
      from Cons.prems Cons obtain child where child: "map_of (k_children t) c = Some child"
        "keyMarked s child ds"
        using True by (auto simp: keyMarked_def split: option.splits)
      from Cons.IH [OF child(2)] child(1) Cons True show ?thesis
        by (simp add: keyMarked_def Let_def update_conv')
    next
      case False
      with Cons.prems Cons show ?thesis
        by (simp add: keyMarked_def Let_def update_conv')
    qed
  qed
qed

lemma markKeys_marked:
  "q \<in> set ps \<or> keyMarked s t q \<Longrightarrow> keyMarked s (markKeys m s t ps) q"
  unfolding markKeys_def
proof (induction ps arbitrary: t)
  case Nil
  then show ?case by simp
next
  case (Cons p ps)
  have "q \<in> set ps \<or> keyMarked s (updateKeyNode p (markEndOfKey m s) t) q"
    using Cons.prems keyMarked_after [of s p m t]
      keyMarked_kept [of s "markEndOfKey m s" t q p, OF markEndOfKey_keeps markEndOfKey_children]
    by auto
  from Cons.IH [OF this] show ?case by simp
qed

lemma markKeys_fixed:
  "\<forall>q \<in> set ps. keyMarked s t q \<Longrightarrow> markKeys m s t ps = t"
  unfolding markKeys_def
proof (induction ps arbitrary: t)
  case Nil
  then show ?case by simp
next
  case (Cons p ps)
  from Cons.prems obtain n where "keyNodeAt p t = Some n" "keyTerminal s n"
    by (auto simp: keyMarked_def split: option.splits)
  then have "updateKeyNode p (markEndOfKey m s) t = t"
    by (simp add: updateKeyNode_fixed markEndOfKey_fixed)
  with Cons show ?case by simp
qed

lemma insertKeyWithSuffixes_root:
  "k_root (insertKeyWithSuffixes kt key) =
     markKeys (k_useSuffixTreeMode kt) key (k_root kt) (substrings_from key)"
  "k_useSuffixTreeMode (insertKeyWithSuffixes kt key) = k_useSuffixTreeMode kt"
proof -
  have gen: "set ps \<subseteq> set (substrings_from key) \<Longrightarrow>
     k_root (foldl (\<lambda>t sfx. insertKeyOnly t sfx key) kt ps)
       = markKeys (k_useSuffixTreeMode kt) key (k_root kt) ps \<and>
     k_useSuffixTreeMode (foldl (\<lambda>t sfx. insertKeyOnly t sfx key) kt ps) = k_useSuffixTreeMode kt"
    for ps kt
  proof (induction ps arbitrary: kt)
    case Nil
    then show ?case by (simp add: markKeys_def)
  next
    case (Cons p ps)
    then have "key \<noteq> []" by (auto simp: substrings_from_def)
    with Cons show ?case by (simp add: markKeys_def insertKeyOnly_def)
  qed
  from gen [of "substrings_from key" kt]
  show "k_root (insertKeyWithSuffixes kt key) =
     markKeys (k_useSuffixTreeMode kt) key (k_root kt) (substrings_from key)"
    "k_useSuffixTreeMode (insertKeyWithSuffixes kt key) = k_useSuffixTreeMode kt"
    by (simp_all add: insertKeyWithSuffixes_def)
qed

lemma indexRecord_root:
  "indexRecord u kt key val i =
     kt\<lparr> k_root := updateKeyNode key
            (onValueTrie (if u then (\<lambda>vt. insertValueWithSuffixMode vt val i)
                          else (\<lambda>vt. insertValue vt val i [])))
            (markKeys (k_useSuffixTreeMode kt) key (k_root kt)
               (keyPaths u (k_useSuffixTreeMode kt) key)) \<rparr>"
  by (rule KeyTrie.equality)
     (simp_all add: indexRecord_def updateValueTrieAt_def insertKeyWithSuffixMode_def Let_def
       insertKeyWithSuffixes_root insertKeyOnly_def markKeys_def keyPaths_def)

lemma indexRecord_idem:
  "indexRecord u (indexRecord u kt key val i) key val i = indexRecord u kt key val i"
proof -
  define V where "V = (if u then (\<lambda>vt. insertValueWithSuffixMode vt val i)
                          else (\<lambda>vt. insertValue vt val i []))"
  define m where "m = k_useSuffixTreeMode kt"
  define ps where "ps = keyPaths u m key"
  define R where "R = markKeys m key (k_root kt) ps"
  define X where "X = updateKeyNode key (onValueTrie V) R"
  have first: "indexRecord u kt key val i = kt\<lparr> k_root := X \<rparr>"
    by (simp add: indexRecord_root V_def m_def ps_def R_def X_def)
  have VV: "V \<circ> V = V"
    by (rule ext) (simp add: V_def insertValueWithSuffixMode_idem insertValue_idem)
  have "\<forall>q \<in> set ps. keyMarked key R q"
    by (simp add: R_def markKeys_marked)
  then have "\<forall>q \<in> set ps. keyMarked key X q"
    unfolding X_def
    using keyMarked_kept [of key "onValueTrie V", OF onValueTrie_keeps onValueTrie_children]
    by blast
  then have again: "markKeys m key X ps = X"
    by (rule markKeys_fixed)
  have "onValueTrie V \<circ> onValueTrie V = onValueTrie (V \<circ> V)"
    by (rule ext) (simp add: onValueTrie_def option.map_comp)
  then have "updateKeyNode key (onValueTrie V) X = X"
    by (simp add: X_def updateKeyNode_twice VV)
  then have "indexRecord u (kt\<lparr> k_root := X \<rparr>) key val i = kt\<lparr> k_root := X \<rparr>"
    using again by (simp add: indexRecord_root V_def [symmetric] m_def [symmetric] ps_def [symmetric])
  then show ?thesis by (simp add: first)
qed

text \<open>
  Claim C6. From every state of the index, for every key, value and object id: after
  \<^verbatim>\<open>create_md_index\<close> is called twice in a row with them, every query gets from
  \<^verbatim>\<open>md_search\<close> the result it gets after the first call (the same vector, or in both
  states no result for a query with an empty key or value portion). The client is in
  fact in the same state; only the list kept by \<^verbatim>\<open>track_metadata\<close> grows.
\<close>

theorem create_md_index_idempotent:
  "md_search (client (create_md_index (create_md_index st key val objectId) key val objectId)) queryStr
   = md_search (client (create_md_index st key val objectId)) queryStr"
proof -
  have "client (create_md_index (create_md_index st key val objectId) key val objectId)
      = client (create_md_index st key val objectId)"
    by (simp add: create_md_index_def indexRecord_idem)
  then show ?thesis by simp
qed

section \<open>Properties of the client of idioms.cpp\<close>

text \<open>
  Claim C1 at two inputs without a star inside a pattern, both on a client in
  suffix-tree mode. The claim says that \<^verbatim>\<open>md_search\<close> returns the ids of the brute-force
  scan; at both inputs it returns one id more.
  \<^item> The exact-value query \<^verbatim>\<open>k=b\<close> after the one record \<open>(k, ab, 1)\<close>: the suffix \<^verbatim>\<open>b\<close> of
    the value \<^verbatim>\<open>ab\<close> is a terminal of the value trie and carries object 1, and
    \<^verbatim>\<open>searchExactValue\<close> does not compare the terminal's full value with the pattern, so
    \<^verbatim>\<open>md_search\<close> returns object 1; no inserted record has the value \<^verbatim>\<open>b\<close>, so the
    brute-force scan with equality returns nothing.
  \<^item> The suffix-key query \<^verbatim>\<open>*ab=*\<close> after the records \<open>(b, v, 1)\<close> and \<open>(ab, w, 2)\<close>: inserting
    the suffix \<^verbatim>\<open>b\<close> of the key \<^verbatim>\<open>ab\<close> overwrites the full key of the terminal of the key
    \<^verbatim>\<open>b\<close> with \<^verbatim>\<open>ab\<close>, so the value trie of the key \<^verbatim>\<open>b\<close> is searched as well and object 1
    is returned with object 2; the brute-force scan with ends-with returns object 2 only.
\<close>

theorem md_search_exact_value_matches_suffix:
  "md_search (client (create_md_index (idioms_init True) ''k'' ''ab'' 1)) ''k=b'' = Some [1] \<and>
   bruteForceScan (objectMetadata (create_md_index (idioms_init True) ''k'' ''ab'' 1)) ''k=b''
     = Some [] \<and>
   md_search (client (create_md_index (create_md_index (idioms_init True) ''b'' ''v'' 1)
       ''ab'' ''w'' 2)) ''*ab=*'' = Some [1, 2] \<and>
   bruteForceScan (objectMetadata (create_md_index (create_md_index (idioms_init True)
       ''b'' ''v'' 1) ''ab'' ''w'' 2)) ''*ab=*'' = Some [2]"
  by code_simp

section \<open>What the search of the client guarantees\<close>

text \<open>
  The search of a client in suffix-tree mode against the brute-force scan of the
  inserted metadata, for every sequence of inserted records: the searches over exact,
  prefix and wildcard keys reach exactly the ids of the records whose key matches, and
  every record stays findable by each of the five shapes, in the key and in the value,
  whatever is inserted after it.
\<close>

subsection \<open>Unions over an updated list of children\<close>

lemma Union_update:
  assumes "case map_of ch c of None \<Rightarrow> True | Some old \<Rightarrow> F old \<subseteq> F X"
  shows "(\<Union>(k, v) \<in> set (AList.update c X ch). F v) = (\<Union>(k, v) \<in> set ch. F v) \<union> F X"
  using assms
proof (induction ch)
  case Nil
  then show ?case by simp
next
  case (Cons e ch)
  obtain k v where e: "e = (k, v)" by (cases e)
  show ?case
  proof (cases "k = c")
    case True
    with Cons.prems e show ?thesis by auto
  next
    case False
    with Cons e show ?thesis by auto
  qed
qed

lemma list_all_update:
  "list_all (\<lambda>(k, v). P v) ch \<Longrightarrow> P X \<Longrightarrow> list_all (\<lambda>(k, v). P v) (AList.update c X ch)"
  by (induction ch) auto

lemma list_all_map_of:
  "list_all (\<lambda>(k, v). P v) ch \<Longrightarrow> map_of ch c = Some v \<Longrightarrow> P v"
  by (induction ch) (auto split: if_splits)

subsection \<open>The ids stored in the second layer\<close>

lemma vwf_init: "vwf ValueTrieNode_init"
  by (simp add: ValueTrieNode_init_def)

lemma collect_init: "collectAllObjectIds ValueTrieNode_init = []"
  by (simp add: ValueTrieNode_init_def)

lemma collect_set:
  "set (collectAllObjectIds t) =
     (if isEndOfValue t then set (objectIds t) else {}) \<union>
     (\<Union>(c, child) \<in> set (v_children t). set (collectAllObjectIds child))"
  by (cases t) auto

lemma vwf_child:
  "vwf t \<Longrightarrow> map_of (v_children t) c = Some child \<Longrightarrow> vwf child"
  by (cases t) (auto dest: list_all_map_of)

lemma mark_value_collect:
  "vwf t \<Longrightarrow>
   vwf (updateValueNode p (markEndOfValue i s) t) \<and>
   set (collectAllObjectIds (updateValueNode p (markEndOfValue i s) t))
     = insert i (set (collectAllObjectIds t))"
proof (induction p arbitrary: t)
  case Nil
  then show ?case
    by (cases t) (auto simp: markEndOfValue_def)
next
  case (Cons c cs)
  define child where "child = (case map_of (v_children t) c of None \<Rightarrow> ValueTrieNode_init | Some n \<Rightarrow> n)"
  define X where "X = updateValueNode cs (markEndOfValue i s) child"
  have wfc: "vwf child"
    using Cons.prems by (auto simp: child_def vwf_init vwf_child split: option.splits)
  from Cons.IH [OF wfc] have X: "vwf X"
    "set (collectAllObjectIds X) = insert i (set (collectAllObjectIds child))"
    by (simp_all add: X_def)
  have upd: "updateValueNode (c # cs) (markEndOfValue i s) t =
      ValueTrieNode (AList.update c X (v_children t)) (isEndOfValue t) (objectIds t) (fullValue t)"
    by (simp add: X_def child_def Let_def)
  have sub: "case map_of (v_children t) c of None \<Rightarrow> True
      | Some old \<Rightarrow> set (collectAllObjectIds old) \<subseteq> set (collectAllObjectIds X)"
    using X(2) by (auto simp: child_def split: option.splits)
  have un: "(\<Union>(k, v) \<in> set (AList.update c X (v_children t)). set (collectAllObjectIds v))
      = (\<Union>(k, v) \<in> set (v_children t). set (collectAllObjectIds v)) \<union> set (collectAllObjectIds X)"
    by (rule Union_update [OF sub])
  have below: "set (collectAllObjectIds child)
      \<subseteq> (\<Union>(k, v) \<in> set (v_children t). set (collectAllObjectIds v))"
    by (auto simp: child_def collect_init split: option.splits dest!: map_of_SomeD)
  have wf': "vwf (updateValueNode (c # cs) (markEndOfValue i s) t)"
    using Cons.prems X(1) unfolding upd by (cases t) (auto intro: list_all_update)
  have "set (collectAllObjectIds (updateValueNode (c # cs) (markEndOfValue i s) t))
      = insert i (set (collectAllObjectIds t))"
    unfolding upd using un X(2) below
    by (subst collect_set, subst (2) collect_set) auto
  with wf' show ?case by simp
qed


lemma markValues_collect:
  "vwf t \<Longrightarrow>
   vwf (markValues i s t ps) \<and>
   set (collectAllObjectIds (markValues i s t ps))
     = (if ps = [] then set (collectAllObjectIds t) else insert i (set (collectAllObjectIds t)))"
  unfolding markValues_def
proof (induction ps arbitrary: t)
  case Nil
  then show ?case by simp
next
  case (Cons p ps)
  from mark_value_collect [OF Cons.prems, of p i s]
  have step: "vwf (updateValueNode p (markEndOfValue i s) t)"
    "set (collectAllObjectIds (updateValueNode p (markEndOfValue i s) t))
       = insert i (set (collectAllObjectIds t))"
    by simp_all
  from Cons.IH [OF step(1)] step(2) show ?case by auto
qed

lemma insertValueWithSuffixMode_ids:
  "vwf (v_root vt) \<Longrightarrow>
   vwf (v_root (insertValueWithSuffixMode vt val i)) \<and>
   set (getAllObjectIds (insertValueWithSuffixMode vt val i)) = insert i (set (getAllObjectIds vt))"
  using markValues_collect [of "v_root vt" i val
      "val # (if v_useSuffixTreeMode vt then substrings_from val else [])"]
  by (simp add: insertValueWithSuffixMode_root getAllObjectIds_def)

lemma insertValue_ids:
  "vwf (v_root vt) \<Longrightarrow>
   vwf (v_root (insertValue vt val i [])) \<and>
   set (getAllObjectIds (insertValue vt val i [])) = insert i (set (getAllObjectIds vt))"
  using mark_value_collect [of "v_root vt" val i val]
  by (simp add: insertValue_def getAllObjectIds_def)

subsection \<open>The ids reached through the first layer\<close>

lemma kwf_init: "kwf KeyTrieNode_init"
  by (simp add: KeyTrieNode_init_def kwf_node_def)

lemma kwf_child:
  "kwf t \<Longrightarrow> map_of (k_children t) c = Some child \<Longrightarrow> kwf child"
  by (cases t) (auto dest: list_all_map_of)

lemma kwf_node_at:
  "kwf t \<Longrightarrow> keyNodeAt p t = Some n \<Longrightarrow> kwf_node n"
proof (induction p arbitrary: t)
  case Nil
  then show ?case by (cases t) simp
next
  case (Cons c cs)
  then show ?case
    by (auto split: option.splits dest: kwf_child)
qed

lemma kwf_node_children:
  "kwf_node (KeyTrieNode ch e vt full) = kwf_node (KeyTrieNode ch' e vt full')"
  by (simp add: kwf_node_def)

lemma kwf_update:
  assumes "\<And>n. kwf_node n \<Longrightarrow> kwf_node (g n)"
    and "\<And>n. k_children (g n) = k_children n"
  shows "kwf t \<Longrightarrow> kwf (updateKeyNode p g t)"
proof (induction p arbitrary: t)
  case Nil
  have "kwf_node (g t)" using Nil assms(1) [of t] by (cases t) simp
  moreover have "list_all (\<lambda>(c, child). kwf child) (k_children (g t))"
    using Nil assms(2) [of t] by (cases t) simp
  ultimately show ?case by (cases "g t") simp
next
  case (Cons c cs)
  define child where "child = (case map_of (k_children t) c of None \<Rightarrow> KeyTrieNode_init | Some n \<Rightarrow> n)"
  define X where "X = updateKeyNode cs g child"
  have "kwf child"
    using Cons.prems by (auto simp: child_def kwf_init kwf_child split: option.splits)
  from Cons.IH [OF this] have X: "kwf X" by (simp add: X_def)
  have upd: "updateKeyNode (c # cs) g t =
      KeyTrieNode (AList.update c X (k_children t)) (isEndOfKey t) (valueTrie t) (fullKey t)"
    by (simp add: X_def child_def Let_def)
  have "list_all (\<lambda>(c, child). kwf child) (k_children t)" "kwf_node t"
    using Cons.prems by (cases t, simp)+
  then have "list_all (\<lambda>(c, child). kwf child) (AList.update c X (k_children t))"
    "kwf_node (KeyTrieNode (AList.update c X (k_children t)) (isEndOfKey t) (valueTrie t) (fullKey t))"
    using X by (auto intro: list_all_update simp: kwf_node_def)
  then show ?case unfolding upd by simp
qed

lemma keyNodeOrInit_Cons:
  "keyNodeOrInit (c # cs) t =
     keyNodeOrInit cs (case map_of (k_children t) c of None \<Rightarrow> KeyTrieNode_init | Some n \<Rightarrow> n)"
proof (cases "map_of (k_children t) c")
  case None
  have "keyNodeOrInit cs KeyTrieNode_init = KeyTrieNode_init"
    by (cases cs) (simp_all add: keyNodeOrInit_def KeyTrieNode_init_def)
  with None show ?thesis by (simp add: keyNodeOrInit_def)
next
  case (Some n)
  then show ?thesis by (simp add: keyNodeOrInit_def)
qed

lemma idsOf_append [simp]: "idsOf (xs @ ys) = idsOf xs \<union> idsOf ys"
  by (auto simp: idsOf_def)

lemma idsOf_Nil [simp]: "idsOf [] = {}"
  by (simp add: idsOf_def)

lemma idsOf_concat:
  "idsOf (concat (map (\<lambda>(c, child). f child) ch)) = (\<Union>(c, child) \<in> set ch. idsOf (f child))"
  by (induction ch) auto

lemma idsOf_own:
  "idsOf (if isEndOfKey n then valueTrieOf n else []) = ownIds n"
  by (simp add: ownIds_def valueTrieOf_def idsOf_def split: option.splits)

lemma collectAll_ids:
  "idsOf (collectAllValueTries t) =
     ownIds t \<union> (\<Union>(c, child) \<in> set (k_children t). idsOf (collectAllValueTries child))"
proof (cases t)
  case (KeyTrieNode ch e vt full)
  have "idsOf (if e then valueTrieOf (KeyTrieNode ch e vt full) else []) = ownIds (KeyTrieNode ch e vt full)"
    using idsOf_own [of "KeyTrieNode ch e vt full"] by simp
  then show ?thesis
    unfolding KeyTrieNode by (simp add: idsOf_concat)
qed

lemma collectAll_init: "collectAllValueTries KeyTrieNode_init = []"
  by (simp add: KeyTrieNode_init_def)

lemma collectAll_update:
  assumes "\<And>n. k_children (g n) = k_children n"
    and "ownIds (g (keyNodeOrInit p t)) = ownIds (keyNodeOrInit p t) \<union> D"
  shows "idsOf (collectAllValueTries (updateKeyNode p g t)) = idsOf (collectAllValueTries t) \<union> D"
  using assms(2)
proof (induction p arbitrary: t)
  case Nil
  then show ?case
    by (subst collectAll_ids, subst (2) collectAll_ids)
       (auto simp: keyNodeOrInit_def assms(1))
next
  case (Cons c cs)
  define child where "child = (case map_of (k_children t) c of None \<Rightarrow> KeyTrieNode_init | Some n \<Rightarrow> n)"
  define X where "X = updateKeyNode cs g child"
  have "ownIds (g (keyNodeOrInit cs child)) = ownIds (keyNodeOrInit cs child) \<union> D"
    using Cons.prems by (simp add: keyNodeOrInit_Cons child_def)
  from Cons.IH [OF this]
  have X: "idsOf (collectAllValueTries X) = idsOf (collectAllValueTries child) \<union> D"
    by (simp add: X_def)
  have upd: "updateKeyNode (c # cs) g t =
      KeyTrieNode (AList.update c X (k_children t)) (isEndOfKey t) (valueTrie t) (fullKey t)"
    by (simp add: X_def child_def Let_def)
  have sub: "case map_of (k_children t) c of None \<Rightarrow> True
      | Some old \<Rightarrow> idsOf (collectAllValueTries old) \<subseteq> idsOf (collectAllValueTries X)"
    using X by (auto simp: child_def split: option.splits)
  have un: "(\<Union>(k, v) \<in> set (AList.update c X (k_children t)). idsOf (collectAllValueTries v))
      = (\<Union>(k, v) \<in> set (k_children t). idsOf (collectAllValueTries v))
        \<union> idsOf (collectAllValueTries X)"
    by (rule Union_update [OF sub])
  have below: "idsOf (collectAllValueTries child)
      \<subseteq> (\<Union>(k, v) \<in> set (k_children t). idsOf (collectAllValueTries v))"
    by (auto simp: child_def collectAll_init split: option.splits dest!: map_of_SomeD)
  have own: "ownIds (KeyTrieNode (AList.update c X (k_children t)) (isEndOfKey t) (valueTrie t)
      (fullKey t)) = ownIds t"
    by (simp add: ownIds_def)
  show ?case
    unfolding upd using un X below own
    by (subst collectAll_ids, subst (2) collectAll_ids) auto
qed


lemma searchByKeyPrefix_Cons:
  "searchByKeyPrefix t (c # rest) =
     (if c = CHR ''*''
      then concat (map (\<lambda>(c', child). searchByKeyPrefix child rest) (k_children t))
      else (case map_of (k_children t) c of
              None \<Rightarrow> []
            | Some child \<Rightarrow> searchByKeyPrefix child rest))"
  by (cases t) simp

lemma searchByKeyPrefix_init: "searchByKeyPrefix KeyTrieNode_init pat = []"
  by (cases pat) (simp_all add: KeyTrieNode_init_def)

lemma prefix_update:
  assumes "\<And>n. k_children (g n) = k_children n"
    and "ownIds (g (keyNodeOrInit p t)) = ownIds (keyNodeOrInit p t) \<union> D"
  shows "idsOf (searchByKeyPrefix (updateKeyNode p g t) pat)
     = idsOf (searchByKeyPrefix t pat) \<union> (if pmatch pat p then D else {})"
  using assms(2)
proof (induction pat arbitrary: p t)
  case Nil
  then show ?case
    using collectAll_update [of g p t D] assms(1) by simp
next
  case (Cons c rest)
  show ?case
  proof (cases p)
    case Nil
    then show ?thesis
      by (simp add: searchByKeyPrefix_Cons assms(1))
  next
    case (Cons d ds)
    define child where "child = (case map_of (k_children t) d of None \<Rightarrow> KeyTrieNode_init | Some n \<Rightarrow> n)"
    define X where "X = updateKeyNode ds g child"
    define E where "E = (if pmatch rest ds then D else {})"
    have "ownIds (g (keyNodeOrInit ds child)) = ownIds (keyNodeOrInit ds child) \<union> D"
      using Cons.prems Cons by (simp add: keyNodeOrInit_Cons child_def)
    from Cons.IH [OF this]
    have X: "idsOf (searchByKeyPrefix X rest) = idsOf (searchByKeyPrefix child rest) \<union> E"
      by (simp add: X_def E_def)
    have upd: "updateKeyNode p g t =
        KeyTrieNode (AList.update d X (k_children t)) (isEndOfKey t) (valueTrie t) (fullKey t)"
      by (simp add: Cons X_def child_def Let_def)
    show ?thesis
    proof (cases "c = CHR ''*''")
      case True
      have sub: "case map_of (k_children t) d of None \<Rightarrow> True
          | Some old \<Rightarrow> idsOf (searchByKeyPrefix old rest) \<subseteq> idsOf (searchByKeyPrefix X rest)"
        using X by (auto simp: child_def split: option.splits)
      have un: "(\<Union>(k, v) \<in> set (AList.update d X (k_children t)). idsOf (searchByKeyPrefix v rest))
          = (\<Union>(k, v) \<in> set (k_children t). idsOf (searchByKeyPrefix v rest))
            \<union> idsOf (searchByKeyPrefix X rest)"
        by (rule Union_update [OF sub])
      have below: "idsOf (searchByKeyPrefix child rest)
          \<subseteq> (\<Union>(k, v) \<in> set (k_children t). idsOf (searchByKeyPrefix v rest))"
        by (auto simp: child_def searchByKeyPrefix_init split: option.splits dest!: map_of_SomeD)
      show ?thesis
        unfolding upd using True un X below Cons
        by (auto simp: searchByKeyPrefix_Cons idsOf_concat E_def)
    next
      case False
      show ?thesis
      proof (cases "c = d")
        case True
        have "idsOf (searchByKeyPrefix child rest)
            = idsOf (case map_of (k_children t) c of None \<Rightarrow> []
                     | Some child \<Rightarrow> searchByKeyPrefix child rest)"
          using True by (simp add: child_def searchByKeyPrefix_init split: option.splits)
        then show ?thesis
          unfolding upd using False True X Cons
          by (simp add: searchByKeyPrefix_Cons update_conv' E_def)
      next
        case False
        then show ?thesis
          unfolding upd using \<open>c \<noteq> CHR ''*''\<close> Cons
          by (simp add: searchByKeyPrefix_Cons update_conv')
      qed
    qed
  qed
qed

lemma exactIds_init: "exactIds KeyTrieNode_init q = {}"
  by (cases q) (simp_all add: exactIds_def KeyTrieNode_init_def ownIds_def)

lemma exact_update:
  assumes "\<And>n. k_children (g n) = k_children n"
    and "ownIds (g (keyNodeOrInit p t)) = ownIds (keyNodeOrInit p t) \<union> D"
  shows "exactIds (updateKeyNode p g t) q = exactIds t q \<union> (if p = q then D else {})"
  using assms(2)
proof (induction p arbitrary: q t)
  case Nil
  then show ?case
    by (cases q) (simp_all add: exactIds_def keyNodeOrInit_def assms(1))
next
  case (Cons c cs)
  define child where "child = (case map_of (k_children t) c of None \<Rightarrow> KeyTrieNode_init | Some n \<Rightarrow> n)"
  define X where "X = updateKeyNode cs g child"
  have upd: "updateKeyNode (c # cs) g t =
      KeyTrieNode (AList.update c X (k_children t)) (isEndOfKey t) (valueTrie t) (fullKey t)"
    by (simp add: X_def child_def Let_def)
  show ?case
  proof (cases q)
    case Nil
    then show ?thesis
      unfolding upd by (simp add: exactIds_def ownIds_def)
  next
    case (Cons d ds)
    show ?thesis
    proof (cases "d = c")
      case True
      have "ownIds (g (keyNodeOrInit cs child)) = ownIds (keyNodeOrInit cs child) \<union> D"
        using Cons.prems by (simp add: keyNodeOrInit_Cons child_def)
      from Cons.IH [OF this, of ds]
      have X: "exactIds X ds = exactIds child ds \<union> (if cs = ds then D else {})"
        by (simp add: X_def)
      have old: "exactIds t (c # ds) = exactIds child ds"
        using exactIds_init [of ds]
        by (auto simp: exactIds_def child_def split: option.splits)
      have "exactIds (updateKeyNode (c # cs) g t) (c # ds) = exactIds X ds"
        unfolding upd by (simp add: exactIds_def update_conv')
      with X old Cons True show ?thesis by simp
    next
      case False
      then show ?thesis
        unfolding upd using Cons by (simp add: exactIds_def update_conv')
    qed
  qed
qed

lemma searchExactKey_ids:
  "idsOf (searchExactKey kt key) = exactIds (k_root kt) key"
  using idsOf_own
  by (simp add: searchExactKey_def exactIds_def split: option.splits)

lemma keySearch_update:
  assumes "\<And>n. k_children (g n) = k_children n"
    and "ownIds (g (keyNodeOrInit p (k_root kt))) = ownIds (keyNodeOrInit p (k_root kt)) \<union> D"
    and "shape = EXACT \<or> shape = PREFIX \<or> shape = WILDCARD"
  shows "idsOf (keySearch (kt\<lparr> k_root := updateKeyNode p g (k_root kt) \<rparr>) shape part)
     = idsOf (keySearch kt shape part) \<union> (if designPredicate shape part p then D else {})"
  using assms(3)
    exact_update [OF assms(1) assms(2), of part]
    prefix_update [OF assms(1) assms(2), of part]
    collectAll_update [OF assms(1) assms(2)]
  by (auto simp: searchExactKey_ids searchKeyPrefix_def getAllValueTries_def)


lemma ValueTrie_init_ids: "getAllObjectIds (ValueTrie_init m) = []"
  by (simp add: getAllObjectIds_def ValueTrie_init_def ValueTrieNode_init_def)

lemma markEndOfKey_own:
  "kwf_node n \<Longrightarrow> ownIds (markEndOfKey m s n) = ownIds n"
  by (auto simp: kwf_node_def ownIds_def markEndOfKey_def ValueTrie_init_ids split: option.splits)

lemma markEndOfKey_kwf:
  "kwf_node n \<Longrightarrow> kwf_node (markEndOfKey m s n)"
  by (auto simp: kwf_node_def markEndOfKey_def ValueTrie_init_def vwf_init split: option.splits)

lemma kwf_node_or_init:
  "kwf t \<Longrightarrow> kwf_node (keyNodeOrInit p t)"
  using kwf_node_at [of t p]
  by (auto simp: keyNodeOrInit_def KeyTrieNode_init_def kwf_node_def split: option.splits)

lemma markKeys_ids:
  assumes "shape = EXACT \<or> shape = PREFIX \<or> shape = WILDCARD"
  shows "kwf (k_root kt) \<Longrightarrow>
     kwf (markKeys m s (k_root kt) ps) \<and>
     idsOf (keySearch (kt\<lparr> k_root := markKeys m s (k_root kt) ps \<rparr>) shape part)
       = idsOf (keySearch kt shape part)"
proof (induction ps arbitrary: kt)
  case Nil
  then show ?case by (simp add: markKeys_def)
next
  case (Cons p ps)
  define kt1 where "kt1 = kt\<lparr> k_root := updateKeyNode p (markEndOfKey m s) (k_root kt) \<rparr>"
  have own: "ownIds (markEndOfKey m s (keyNodeOrInit p (k_root kt)))
      = ownIds (keyNodeOrInit p (k_root kt)) \<union> {}"
    using markEndOfKey_own [OF kwf_node_or_init [OF Cons.prems]] by simp
  have ids1: "idsOf (keySearch kt1 shape part) = idsOf (keySearch kt shape part)"
    unfolding kt1_def
    using keySearch_update [of "markEndOfKey m s" p kt "{}" shape part, OF markEndOfKey_children own assms]
    by simp
  have wf1: "kwf (k_root kt1)"
    unfolding kt1_def using kwf_update [OF markEndOfKey_kwf markEndOfKey_children Cons.prems]
    by simp
  have "markKeys m s (k_root kt) (p # ps) = markKeys m s (k_root kt1) ps"
    by (simp add: markKeys_def kt1_def)
  moreover have "kt\<lparr> k_root := markKeys m s (k_root kt1) ps \<rparr>
      = kt1\<lparr> k_root := markKeys m s (k_root kt1) ps \<rparr>"
    by (simp add: kt1_def)
  ultimately show ?case
    using Cons.IH [OF wf1] ids1 by simp
qed

lemma onValueTrie_kwf:
  assumes "\<And>vt. vwf (v_root vt) \<Longrightarrow> vwf (v_root (V vt))"
  shows "kwf_node n \<Longrightarrow> kwf_node (onValueTrie V n)"
  using assms by (auto simp: kwf_node_def onValueTrie_def split: option.splits)

lemma indexRecord_ids:
  assumes "kwf (k_root kt)" and "shape = EXACT \<or> shape = PREFIX \<or> shape = WILDCARD"
  shows "kwf (k_root (indexRecord u kt key val i)) \<and>
     idsOf (keySearch (indexRecord u kt key val i) shape part)
       = idsOf (keySearch kt shape part) \<union> (if designPredicate shape part key then {i} else {})"
proof -
  define V where "V = (if u then (\<lambda>vt. insertValueWithSuffixMode vt val i)
                          else (\<lambda>vt. insertValue vt val i []))"
  define m where "m = k_useSuffixTreeMode kt"
  define ps where "ps = keyPaths u m key"
  define R where "R = markKeys m key (k_root kt) ps"
  define kt1 where "kt1 = kt\<lparr> k_root := R \<rparr>"
  have V: "vwf (v_root (V vt)) \<and> set (getAllObjectIds (V vt)) = insert i (set (getAllObjectIds vt))"
    if "vwf (v_root vt)" for vt
    using that insertValueWithSuffixMode_ids [of vt val i] insertValue_ids [of vt val i]
    by (simp add: V_def)
  have first: "indexRecord u kt key val i = kt1\<lparr> k_root := updateKeyNode key (onValueTrie V) (k_root kt1) \<rparr>"
    by (simp add: indexRecord_root V_def m_def ps_def R_def kt1_def)
  from markKeys_ids [OF assms(2) assms(1), of m key ps part]
  have R: "kwf R" "idsOf (keySearch kt1 shape part) = idsOf (keySearch kt shape part)"
    by (simp_all add: R_def kt1_def)
  have "key \<in> set ps" by (simp add: ps_def keyPaths_def)
  then have "keyMarked key R key"
    by (simp add: R_def markKeys_marked)
  then obtain n where n: "keyNodeAt key R = Some n" "keyTerminal key n"
    by (auto simp: keyMarked_def split: option.splits)
  then obtain vt where vt: "valueTrie n = Some vt" "isEndOfKey n"
    by (auto simp: keyTerminal_def)
  have "kwf_node n" using kwf_node_at [OF R(1) n(1)] .
  then have "vwf (v_root vt)" using vt by (simp add: kwf_node_def)
  from V [OF this] have "ownIds (onValueTrie V n) = ownIds n \<union> {i}"
    using vt by (simp add: ownIds_def onValueTrie_def)
  then have own: "ownIds (onValueTrie V (keyNodeOrInit key (k_root kt1)))
      = ownIds (keyNodeOrInit key (k_root kt1)) \<union> {i}"
    using n(1) by (simp add: keyNodeOrInit_def kt1_def)
  have ids: "idsOf (keySearch (kt1\<lparr> k_root := updateKeyNode key (onValueTrie V) (k_root kt1) \<rparr>) shape part)
      = idsOf (keySearch kt1 shape part) \<union> (if designPredicate shape part key then {i} else {})"
    by (rule keySearch_update [OF onValueTrie_children own assms(2)])
  have "kwf (updateKeyNode key (onValueTrie V) R)"
    using kwf_update [of "onValueTrie V", OF onValueTrie_kwf onValueTrie_children R(1)] V
    by blast
  then have "kwf (k_root (indexRecord u kt key val i))"
    by (simp add: first kt1_def)
  with ids R(2) first show ?thesis by simp
qed


subsection \<open>The scan of the metadata\<close>

lemma triples_push:
  "triples (metadata_push md i (k, v)) = insert (i, k, v) (triples md)"
proof (induction md)
  case Nil
  then show ?case by (auto simp: triples_def)
next
  case (Cons e md)
  obtain j l where e: "e = (j, l)" by (cases e)
  have tcons: "triples ((j', l') # md') = {(j', k, v) | k v. (k, v) \<in> set l'} \<union> triples md'"
    for j' l' md'
    by (auto simp: triples_def)
  show ?case
  proof (cases "j = i")
    case True
    then show ?thesis unfolding e by (auto simp: tcons)
  next
    case False
    then show ?thesis unfolding e using Cons by (auto simp: tcons)
  qed
qed

lemma scan_set:
  "set (map fst (filter (\<lambda>(objectId, pairs). list_ex (\<lambda>(key, val). P key \<and> Q val) pairs) md))
     = {i. \<exists>k v. (i, k, v) \<in> triples md \<and> P k \<and> Q v}"
proof (rule set_eqI)
  fix i
  have "i \<in> set (map fst (filter (\<lambda>(objectId, pairs). list_ex (\<lambda>(key, val). P key \<and> Q val) pairs) md))
      \<longleftrightarrow> (\<exists>pairs. (i, pairs) \<in> set md \<and> (\<exists>(k, v) \<in> set pairs. P k \<and> Q v))"
    by (force simp: list_ex_iff)
  also have "\<dots> \<longleftrightarrow> (\<exists>k v. (i, k, v) \<in> triples md \<and> P k \<and> Q v)"
    by (auto simp: triples_def)
  finally show "i \<in> set (map fst (filter (\<lambda>(objectId, pairs). list_ex (\<lambda>(key, val). P key \<and> Q val) pairs) md))
      \<longleftrightarrow> i \<in> {i. \<exists>k v. (i, k, v) \<in> triples md \<and> P k \<and> Q v}"
    by simp
qed

lemma sort_remdups_cong:
  "set xs = set ys \<Longrightarrow> sort (remdups xs) = sort (remdups ys)"
  by (simp add: sorted_list_of_set_sort_remdups [symmetric])

lemma keySearch_init:
  assumes "shape = EXACT \<or> shape = PREFIX \<or> shape = WILDCARD"
  shows "keySearch (KeyTrie_init u) shape part = []"
proof -
  have "keyNodeAt part KeyTrieNode_init = None \<or> keyNodeAt part KeyTrieNode_init = Some KeyTrieNode_init"
    by (cases part) (simp_all add: KeyTrieNode_init_def)
  then have "searchExactKey (KeyTrie_init u) part = []"
    by (auto simp: searchExactKey_def KeyTrie_init_def) (simp add: KeyTrieNode_init_def)
  then show ?thesis
    using assms
    by (auto simp: searchKeyPrefix_def getAllValueTries_def KeyTrie_init_def
        searchByKeyPrefix_init collectAll_init)
qed

lemma insertRecords_snoc:
  "insertRecords st (rs @ [(k, v, i)]) = create_md_index (insertRecords st rs) k v i"
  by (simp add: insertRecords_def)

lemma insertRecords_ids:
  assumes "shape = EXACT \<or> shape = PREFIX \<or> shape = WILDCARD"
  shows "kwf (k_root (keyTrie (client (insertRecords (idioms_init u) rs)))) \<and>
     idsOf (keySearch (keyTrie (client (insertRecords (idioms_init u) rs))) shape part)
       = {i. \<exists>k v. (i, k, v) \<in> triples (objectMetadata (insertRecords (idioms_init u) rs)) \<and>
                designPredicate shape part k}"
proof (induction rs rule: rev_induct)
  case Nil
  show ?case
    using keySearch_init [OF assms, of u part]
    by (simp add: insertRecords_def idioms_init_def IdiomsClient_init_def KeyTrie_init_def
        kwf_init triples_def)
next
  case (snoc r rs)
  obtain k v i where r: "r = (k, v, i)" by (cases r)
  define st where "st = insertRecords (idioms_init u) rs"
  have wf: "kwf (k_root (keyTrie (client st)))"
    and ids: "idsOf (keySearch (keyTrie (client st)) shape part)
       = {i. \<exists>k v. (i, k, v) \<in> triples (objectMetadata st) \<and> designPredicate shape part k}"
    using snoc by (simp_all add: st_def)
  have nxt: "insertRecords (idioms_init u) (rs @ [r]) = create_md_index st k v i"
    by (simp add: r insertRecords_snoc st_def)
  from indexRecord_ids [OF wf assms, of "useSuffixTreeMode (client st)" k v i part]
  have "kwf (k_root (keyTrie (client (create_md_index st k v i))))"
    and "idsOf (keySearch (keyTrie (client (create_md_index st k v i))) shape part)
       = idsOf (keySearch (keyTrie (client st)) shape part)
         \<union> (if designPredicate shape part k then {i} else {})"
    by (simp_all add: create_md_index_def)
  moreover have "triples (objectMetadata (create_md_index st k v i))
      = insert (i, k, v) (triples (objectMetadata st))"
    by (simp add: create_md_index_def triples_push)
  ultimately show ?case
    unfolding nxt using ids by auto
qed

lemma pmatch_starts_with:
  "CHR ''*'' \<notin> set part \<Longrightarrow> pmatch part str = starts_with str part"
proof (induction part str rule: pmatch.induct)
  case (1 str)
  then show ?case by (simp add: starts_with_def)
next
  case (2 c cs)
  then show ?case by (simp add: starts_with_def)
next
  case (3 c cs d ds)
  then show ?case by (auto simp: starts_with_def)
qed

subsection \<open>Exact, prefix and wildcard keys with the wildcard value\<close>

lemma md_search_equals_scan:
  assumes "parseQueryCondition queryStr = Some condition"
    and "valueType condition = WILDCARD"
    and "keyType condition = EXACT \<or> keyType condition = PREFIX \<or> keyType condition = WILDCARD"
  shows "md_search (client (insertRecords (idioms_init True) records)) queryStr
       = scanWith designPredicate (objectMetadata (insertRecords (idioms_init True) records)) queryStr"
proof -
  define st where "st = insertRecords (idioms_init True) records"
  define vts where "vts = keySearch (keyTrie (client st)) (keyType condition) (keyPart condition)"
  have ids: "idsOf vts = {i. \<exists>k v. (i, k, v) \<in> triples (objectMetadata st) \<and>
                designPredicate (keyType condition) (keyPart condition) k}"
    using insertRecords_ids [OF assms(3), of True records "keyPart condition"]
    by (simp add: st_def vts_def)
  have "set (concat (map (\<lambda>vt. valueSearch vt (valueType condition) (valuePart condition)) vts))
      = idsOf vts"
    by (auto simp: assms(2) idsOf_def)
  also have "\<dots> = set (map fst (filter (\<lambda>(objectId, pairs).
                   list_ex (\<lambda>(key, val).
                       designPredicate (keyType condition) (keyPart condition) key \<and>
                       designPredicate (valueType condition) (valuePart condition) val) pairs)
                 (objectMetadata st)))"
    unfolding scan_set ids by (simp add: assms(2))
  finally have "sort (remdups (concat (map (\<lambda>vt. valueSearch vt (valueType condition)
        (valuePart condition)) vts)))
      = sort (remdups (map fst (filter (\<lambda>(objectId, pairs).
                   list_ex (\<lambda>(key, val).
                       designPredicate (keyType condition) (keyPart condition) key \<and>
                       designPredicate (valueType condition) (valuePart condition) val) pairs)
                 (objectMetadata st))))"
    by (rule sort_remdups_cong)
  then show ?thesis
    unfolding st_def [symmetric]
    by (simp add: md_search_def scanWith_def assms(1) Let_def vts_def [symmetric])
qed

subsection \<open>Suffixes and substrings\<close>

lemma contains_iff: "contains s t \<longleftrightarrow> (\<exists>a b. s = a @ t @ b)"
proof (induction s)
  case Nil
  then show ?case by auto
next
  case (Cons c s)
  show ?case
  proof
    assume "contains (c # s) t"
    then consider "prefix t (c # s)" | "contains s t" by auto
    then show "\<exists>a b. c # s = a @ t @ b"
    proof cases
      case 1
      then obtain b where "c # s = t @ b" by (auto simp: prefix_def)
      then have "c # s = [] @ t @ b" by simp
      then show ?thesis by blast
    next
      case 2
      with Cons obtain a b where "s = a @ t @ b" by blast
      then have "c # s = (c # a) @ t @ b" by simp
      then show ?thesis by blast
    qed
  next
    assume "\<exists>a b. c # s = a @ t @ b"
    then obtain a b where ab: "c # s = a @ t @ b" by blast
    show "contains (c # s) t"
    proof (cases a)
      case Nil
      with ab have "prefix t (c # s)" by (simp add: prefix_def)
      then show ?thesis by simp
    next
      case (Cons d a')
      with ab have "s = a' @ t @ b" by simp
      with Cons.IH have "contains s t" by blast
      then show ?thesis by simp
    qed
  qed
qed

lemma ends_with_iff: "ends_with s t \<longleftrightarrow> suffix t s"
proof
  assume "ends_with s t"
  then have "s = take (length s - length t) s @ t"
    by (metis append_take_drop_id ends_with_def)
  then show "suffix t s" by (metis suffixI)
next
  assume "suffix t s"
  then obtain a where "s = a @ t" by (auto simp: suffix_def)
  then show "ends_with s t" by (simp add: ends_with_def)
qed

lemma ends_with_longer: "suffix k f \<Longrightarrow> ends_with k s \<Longrightarrow> ends_with f s"
  by (auto simp: ends_with_iff intro: suffix_order.trans)

lemma contains_longer: "suffix k f \<Longrightarrow> contains k s \<Longrightarrow> contains f s"
proof -
  assume "suffix k f" "contains k s"
  then obtain z a b where "f = z @ k" "k = a @ s @ b"
    by (auto simp: suffix_def contains_iff)
  then have "f = (z @ a) @ s @ b" by simp
  then show ?thesis unfolding contains_iff by blast
qed

lemma substrings_suffix: "p \<in> set (substrings_from s) \<Longrightarrow> suffix p s"
  by (auto simp: substrings_from_def intro: suffix_drop)

subsection \<open>Every search of the second layer finds a matching terminal\<close>

lemma value_in_collect:
  "valueNodeAt q t = Some m \<Longrightarrow> isEndOfValue m \<Longrightarrow> i \<in> set (objectIds m)
   \<Longrightarrow> i \<in> set (collectAllObjectIds t)"
proof (induction q arbitrary: t)
  case Nil
  then show ?case by (cases t) auto
next
  case (Cons c cs)
  then obtain child where child: "map_of (v_children t) c = Some child" "valueNodeAt cs child = Some m"
    by (auto split: option.splits)
  from Cons.IH [OF child(2) Cons.prems(2,3)] map_of_SomeD [OF child(1)]
  show ?case by (subst collect_set) auto
qed

lemma searchByValuePrefix_Cons:
  "searchByValuePrefix t (c # rest) =
     (if c = CHR ''*''
      then concat (map (\<lambda>(c', child). searchByValuePrefix child rest) (v_children t))
      else (case map_of (v_children t) c of
              None \<Rightarrow> []
            | Some child \<Rightarrow> searchByValuePrefix child rest))"
  by (cases t) simp

lemma value_in_prefix:
  "valueNodeAt q t = Some m \<Longrightarrow> isEndOfValue m \<Longrightarrow> i \<in> set (objectIds m) \<Longrightarrow> pmatch pat q
   \<Longrightarrow> i \<in> set (searchByValuePrefix t pat)"
proof (induction pat arbitrary: q t)
  case Nil
  then show ?case by (simp add: value_in_collect)
next
  case (Cons c rest)
  then obtain d ds where q: "q = d # ds" by (cases q) auto
  with Cons.prems obtain child where child: "map_of (v_children t) d = Some child"
    "valueNodeAt ds child = Some m"
    by (auto split: option.splits)
  have "pmatch rest ds" "c = CHR ''*'' \<or> c = d"
    using Cons.prems(4) q by auto
  from Cons.IH [OF child(2) Cons.prems(2,3) this(1)] this(2) child(1) map_of_SomeD [OF child(1)]
  show ?case
    by (auto simp: searchByValuePrefix_Cons)
qed

lemma searchByValueSuffix_set:
  "set (searchByValueSuffix t sfx) =
     (if isEndOfValue t \<and> fullValue t \<noteq> [] \<and> ends_with (fullValue t) sfx
      then set (objectIds t) else {}) \<union>
     (\<Union>(c, child) \<in> set (v_children t). set (searchByValueSuffix child sfx))"
  by (cases t) auto

lemma searchByValueInfix_set:
  "set (searchByValueInfix t infx) =
     (if isEndOfValue t \<and> fullValue t \<noteq> [] \<and> contains (fullValue t) infx
      then set (objectIds t) else {}) \<union>
     (\<Union>(c, child) \<in> set (v_children t). set (searchByValueInfix child infx))"
  by (cases t) auto

lemma value_in_suffix:
  "valueNodeAt q t = Some m \<Longrightarrow> isEndOfValue m \<Longrightarrow> i \<in> set (objectIds m) \<Longrightarrow>
   fullValue m \<noteq> [] \<Longrightarrow> ends_with (fullValue m) sfx
   \<Longrightarrow> i \<in> set (searchByValueSuffix t sfx)"
proof (induction q arbitrary: t)
  case Nil
  then show ?case by (subst searchByValueSuffix_set) auto
next
  case (Cons c cs)
  then obtain child where child: "map_of (v_children t) c = Some child" "valueNodeAt cs child = Some m"
    by (auto split: option.splits)
  from Cons.IH [OF child(2) Cons.prems(2-5)] map_of_SomeD [OF child(1)]
  show ?case by (subst searchByValueSuffix_set) auto
qed

lemma value_in_infix:
  "valueNodeAt q t = Some m \<Longrightarrow> isEndOfValue m \<Longrightarrow> i \<in> set (objectIds m) \<Longrightarrow>
   fullValue m \<noteq> [] \<Longrightarrow> contains (fullValue m) infx
   \<Longrightarrow> i \<in> set (searchByValueInfix t infx)"
proof (induction q arbitrary: t)
  case Nil
  then show ?case by (subst searchByValueInfix_set) auto
next
  case (Cons c cs)
  then obtain child where child: "map_of (v_children t) c = Some child" "valueNodeAt cs child = Some m"
    by (auto split: option.splits)
  from Cons.IH [OF child(2) Cons.prems(2-5)] map_of_SomeD [OF child(1)]
  show ?case by (subst searchByValueInfix_set) auto
qed

subsection \<open>Every search of the first layer finds a matching terminal\<close>

lemma collectAllValueTries_set:
  "set (collectAllValueTries t) =
     (if isEndOfKey t then set (valueTrieOf t) else {}) \<union>
     (\<Union>(c, child) \<in> set (k_children t). set (collectAllValueTries child))"
  by (cases t) auto

lemma searchByKeySuffix_set:
  "set (searchByKeySuffix t sfx) =
     (if isEndOfKey t \<and> fullKey t \<noteq> [] \<and> ends_with (fullKey t) sfx
      then set (valueTrieOf t) else {}) \<union>
     (\<Union>(c, child) \<in> set (k_children t). set (searchByKeySuffix child sfx))"
  by (cases t) auto

lemma searchByKeyInfix_set:
  "set (searchByKeyInfix t infx) =
     (if isEndOfKey t \<and> fullKey t \<noteq> [] \<and> contains (fullKey t) infx
      then set (valueTrieOf t) else {}) \<union>
     (\<Union>(c, child) \<in> set (k_children t). set (searchByKeyInfix child infx))"
  by (cases t) auto

lemma key_in_collect:
  "keyNodeAt q t = Some n \<Longrightarrow> isEndOfKey n \<Longrightarrow> valueTrie n = Some vt
   \<Longrightarrow> vt \<in> set (collectAllValueTries t)"
proof (induction q arbitrary: t)
  case Nil
  then show ?case by (subst collectAllValueTries_set) (auto simp: valueTrieOf_def)
next
  case (Cons c cs)
  then obtain child where child: "map_of (k_children t) c = Some child" "keyNodeAt cs child = Some n"
    by (auto split: option.splits)
  from Cons.IH [OF child(2) Cons.prems(2,3)] map_of_SomeD [OF child(1)]
  show ?case by (subst collectAllValueTries_set) auto
qed

lemma key_in_prefix:
  "keyNodeAt q t = Some n \<Longrightarrow> isEndOfKey n \<Longrightarrow> valueTrie n = Some vt \<Longrightarrow> pmatch pat q
   \<Longrightarrow> vt \<in> set (searchByKeyPrefix t pat)"
proof (induction pat arbitrary: q t)
  case Nil
  then show ?case by (simp add: key_in_collect)
next
  case (Cons c rest)
  then obtain d ds where q: "q = d # ds" by (cases q) auto
  with Cons.prems obtain child where child: "map_of (k_children t) d = Some child"
    "keyNodeAt ds child = Some n"
    by (auto split: option.splits)
  have "pmatch rest ds" "c = CHR ''*'' \<or> c = d"
    using Cons.prems(4) q by auto
  from Cons.IH [OF child(2) Cons.prems(2,3) this(1)] this(2) child(1) map_of_SomeD [OF child(1)]
  show ?case
    by (auto simp: searchByKeyPrefix_Cons)
qed

lemma key_in_suffix:
  "keyNodeAt q t = Some n \<Longrightarrow> isEndOfKey n \<Longrightarrow> valueTrie n = Some vt \<Longrightarrow>
   fullKey n \<noteq> [] \<Longrightarrow> ends_with (fullKey n) sfx
   \<Longrightarrow> vt \<in> set (searchByKeySuffix t sfx)"
proof (induction q arbitrary: t)
  case Nil
  then show ?case by (subst searchByKeySuffix_set) (auto simp: valueTrieOf_def)
next
  case (Cons c cs)
  then obtain child where child: "map_of (k_children t) c = Some child" "keyNodeAt cs child = Some n"
    by (auto split: option.splits)
  from Cons.IH [OF child(2) Cons.prems(2-5)] map_of_SomeD [OF child(1)]
  show ?case by (subst searchByKeySuffix_set) auto
qed

lemma key_in_infix:
  "keyNodeAt q t = Some n \<Longrightarrow> isEndOfKey n \<Longrightarrow> valueTrie n = Some vt \<Longrightarrow>
   fullKey n \<noteq> [] \<Longrightarrow> contains (fullKey n) infx
   \<Longrightarrow> vt \<in> set (searchByKeyInfix t infx)"
proof (induction q arbitrary: t)
  case Nil
  then show ?case by (subst searchByKeyInfix_set) (auto simp: valueTrieOf_def)
next
  case (Cons c cs)
  then obtain child where child: "map_of (k_children t) c = Some child" "keyNodeAt cs child = Some n"
    by (auto split: option.splits)
  from Cons.IH [OF child(2) Cons.prems(2-5)] map_of_SomeD [OF child(1)]
  show ?case by (subst searchByKeyInfix_set) auto
qed

subsection \<open>Later inserts keep a recorded value\<close>

lemma value_at_update:
  assumes "\<And>n. v_children (g n) = v_children n"
    and "\<And>ch ch' e ids full. P (ValueTrieNode ch e ids full) = P (ValueTrieNode ch' e ids full)"
  shows "(case valueNodeAt q t of None \<Rightarrow> False | Some n \<Rightarrow> P n)
     \<Longrightarrow> (p = q \<longrightarrow> (\<forall>n. P n \<longrightarrow> P (g n)))
     \<Longrightarrow> (case valueNodeAt q (updateValueNode p g t) of None \<Rightarrow> False | Some n \<Rightarrow> P n)"
proof (induction p arbitrary: q t)
  case Nil
  then show ?case
    by (cases q) (auto simp: assms(1))
next
  case (Cons c cs)
  show ?case
  proof (cases q)
    case Nil
    with Cons.prems(1) have "P t" by simp
    then have "P (ValueTrieNode ch (isEndOfValue t) (objectIds t) (fullValue t))" for ch
      using assms(2) [of "v_children t" "isEndOfValue t" "objectIds t" "fullValue t" ch] by simp
    with Nil show ?thesis by (simp add: Let_def)
  next
    case q: (Cons d ds)
    show ?thesis
    proof (cases "d = c")
      case True
      from Cons.prems(1) q True obtain child where child:
        "map_of (v_children t) c = Some child"
        "case valueNodeAt ds child of None \<Rightarrow> False | Some n \<Rightarrow> P n"
        by (auto split: option.splits)
      have "cs = ds \<longrightarrow> (\<forall>n. P n \<longrightarrow> P (g n))"
        using Cons.prems(2) q True by simp
      from Cons.IH [OF child(2) this] child(1) q True show ?thesis
        by (simp add: Let_def update_conv')
    next
      case False
      with Cons.prems(1) q show ?thesis
        by (simp add: Let_def update_conv')
    qed
  qed
qed

lemma valueHolds_children:
  "valueHolds i v (ValueTrieNode ch e ids full) = valueHolds i v (ValueTrieNode ch' e ids full)"
  by (simp add: valueHolds_def)

lemma markEndOfValue_children:
  "v_children (markEndOfValue j s n) = v_children n"
  by (simp add: markEndOfValue_def)

lemma valueRecorded_update:
  "valueRecorded i v t \<Longrightarrow> (p = v \<longrightarrow> suffix v s)
   \<Longrightarrow> valueRecorded i v (updateValueNode p (markEndOfValue j s) t)"
  unfolding valueRecorded_def
  by (rule value_at_update [where g = "markEndOfValue j s" and P = "valueHolds i v",
        OF markEndOfValue_children valueHolds_children])
     (auto simp: valueHolds_def markEndOfValue_def)

lemma valueNodeAt_update_same:
  "\<exists>n. valueNodeAt p (updateValueNode p g t) = Some (g n)"
  by (induction p arbitrary: t) (auto simp: Let_def update_conv')

lemma valueRecorded_after:
  "suffix p s \<Longrightarrow> valueRecorded j p (updateValueNode p (markEndOfValue j s) t)"
proof -
  assume p: "suffix p s"
  obtain n where "valueNodeAt p (updateValueNode p (markEndOfValue j s) t) = Some (markEndOfValue j s n)"
    using valueNodeAt_update_same by blast
  with p show ?thesis
    by (simp add: valueRecorded_def valueHolds_def markEndOfValue_def)
qed

lemma markValues_recorded:
  "\<forall>p \<in> set ps. suffix p s \<Longrightarrow> valueRecorded i v t \<or> (i = j \<and> v \<in> set ps)
   \<Longrightarrow> valueRecorded i v (markValues j s t ps)"
  unfolding markValues_def
proof (induction ps arbitrary: t)
  case Nil
  then show ?case by simp
next
  case (Cons p ps)
  define t1 where "t1 = updateValueNode p (markEndOfValue j s) t"
  have p: "suffix p s" and ps: "\<forall>p \<in> set ps. suffix p s" using Cons.prems(1) by simp_all
  have "valueRecorded i v t1 \<or> (i = j \<and> v \<in> set ps)"
  proof (cases "valueRecorded i v t")
    case True
    with valueRecorded_update [of i v t p s j] p show ?thesis by (auto simp: t1_def)
  next
    case False
    with Cons.prems(2) have "i = j" "v = p \<or> v \<in> set ps" by auto
    with valueRecorded_after [OF p, of j t] show ?thesis by (auto simp: t1_def)
  qed
  from Cons.IH [OF ps this] show ?case by (simp add: t1_def)
qed

lemma insertValueWithSuffixMode_recorded:
  "valueRecorded i v (v_root vt) \<or> (i = j \<and> v = val)
   \<Longrightarrow> valueRecorded i v (v_root (insertValueWithSuffixMode vt val j))"
proof -
  define ps where "ps = val # (if v_useSuffixTreeMode vt then substrings_from val else [])"
  assume "valueRecorded i v (v_root vt) \<or> (i = j \<and> v = val)"
  then have "valueRecorded i v (v_root vt) \<or> (i = j \<and> v \<in> set ps)"
    by (auto simp: ps_def)
  moreover have "\<forall>p \<in> set ps. suffix p val"
    by (auto simp: ps_def dest: substrings_suffix)
  ultimately have "valueRecorded i v (markValues j val (v_root vt) ps)"
    by (simp add: markValues_recorded)
  then show ?thesis
    by (simp add: insertValueWithSuffixMode_root ps_def)
qed

lemma insertValueWithSuffixMode_flag:
  "v_useSuffixTreeMode (insertValueWithSuffixMode vt val j) = v_useSuffixTreeMode vt"
  by (simp add: insertValueWithSuffixMode_root)

subsection \<open>Later inserts keep a recorded key\<close>

lemma key_at_update:
  assumes "\<And>n. k_children (g n) = k_children n"
    and "\<And>ch ch' e vt full. P (KeyTrieNode ch e vt full) = P (KeyTrieNode ch' e vt full)"
  shows "(case keyNodeAt q t of None \<Rightarrow> False | Some n \<Rightarrow> P n)
     \<Longrightarrow> (p = q \<longrightarrow> (\<forall>n. P n \<longrightarrow> P (g n)))
     \<Longrightarrow> (case keyNodeAt q (updateKeyNode p g t) of None \<Rightarrow> False | Some n \<Rightarrow> P n)"
proof (induction p arbitrary: q t)
  case Nil
  then show ?case
    by (cases q) (auto simp: assms(1))
next
  case (Cons c cs)
  show ?case
  proof (cases q)
    case Nil
    with Cons.prems(1) have "P t" by simp
    then have "P (KeyTrieNode ch (isEndOfKey t) (valueTrie t) (fullKey t))" for ch
      using assms(2) [of "k_children t" "isEndOfKey t" "valueTrie t" "fullKey t" ch] by simp
    with Nil show ?thesis by (simp add: Let_def)
  next
    case q: (Cons d ds)
    show ?thesis
    proof (cases "d = c")
      case True
      from Cons.prems(1) q True obtain child where child:
        "map_of (k_children t) c = Some child"
        "case keyNodeAt ds child of None \<Rightarrow> False | Some n \<Rightarrow> P n"
        by (auto split: option.splits)
      have "cs = ds \<longrightarrow> (\<forall>n. P n \<longrightarrow> P (g n))"
        using Cons.prems(2) q True by simp
      from Cons.IH [OF child(2) this] child(1) q True show ?thesis
        by (simp add: Let_def update_conv')
    next
      case False
      with Cons.prems(1) q show ?thesis
        by (simp add: Let_def update_conv')
    qed
  qed
qed

lemma keyHolds_children:
  "keyHolds i k v (KeyTrieNode ch e vt full) = keyHolds i k v (KeyTrieNode ch' e vt full)"
  by (simp add: keyHolds_def)

lemma keyRecorded_mark:
  "keyRecorded i k v t \<Longrightarrow> (p = k \<longrightarrow> suffix k s)
   \<Longrightarrow> keyRecorded i k v (updateKeyNode p (markEndOfKey m s) t)"
  unfolding keyRecorded_def
  by (rule key_at_update [where g = "markEndOfKey m s" and P = "keyHolds i k v",
        OF markEndOfKey_children keyHolds_children])
     (auto simp: keyHolds_def markEndOfKey_def split: option.splits)

lemma keyRecorded_onValueTrie:
  assumes "\<And>vt. v_useSuffixTreeMode (V vt) = v_useSuffixTreeMode vt"
    and "\<And>vt. valueRecorded i v (v_root vt) \<Longrightarrow> valueRecorded i v (v_root (V vt))"
  shows "keyRecorded i k v t \<Longrightarrow> keyRecorded i k v (updateKeyNode p (onValueTrie V) t)"
  unfolding keyRecorded_def
  by (rule key_at_update [where g = "onValueTrie V" and P = "keyHolds i k v",
        OF onValueTrie_children keyHolds_children])
     (auto simp: keyHolds_def onValueTrie_def assms split: option.splits)

lemma markKeys_recorded:
  "\<forall>p \<in> set ps. suffix p s \<Longrightarrow> keyRecorded i k v t \<Longrightarrow> keyRecorded i k v (markKeys m s t ps)"
  unfolding markKeys_def
proof (induction ps arbitrary: t)
  case Nil
  then show ?case by simp
next
  case (Cons p ps)
  from Cons.prems have "keyRecorded i k v (updateKeyNode p (markEndOfKey m s) t)"
    by (auto intro: keyRecorded_mark)
  with Cons.IH [of "updateKeyNode p (markEndOfKey m s) t"] Cons.prems(1) show ?case by simp
qed

lemma keyNodeAt_update_same:
  "keyNodeAt p t = Some n \<Longrightarrow> keyNodeAt p (updateKeyNode p g t) = Some (g n)"
proof (induction p arbitrary: t)
  case Nil
  then show ?case by simp
next
  case (Cons c cs)
  then show ?case
    by (auto simp: Let_def update_conv' split: option.splits)
qed

subsection \<open>The mode of the value tries\<close>

lemma kflags_init: "kflags KeyTrieNode_init"
  by (simp add: KeyTrieNode_init_def kflag_def)

lemma kflags_child:
  "kflags t \<Longrightarrow> map_of (k_children t) c = Some child \<Longrightarrow> kflags child"
  by (cases t) (auto dest: list_all_map_of)

lemma kflags_at:
  "kflags t \<Longrightarrow> keyNodeAt p t = Some n \<Longrightarrow> kflag n"
proof (induction p arbitrary: t)
  case Nil
  then show ?case by (cases t) simp
next
  case (Cons c cs)
  then show ?case
    by (auto split: option.splits dest: kflags_child)
qed

lemma kflags_update:
  assumes "\<And>n. kflag n \<Longrightarrow> kflag (g n)"
    and "\<And>n. k_children (g n) = k_children n"
  shows "kflags t \<Longrightarrow> kflags (updateKeyNode p g t)"
proof (induction p arbitrary: t)
  case Nil
  have "kflag (g t)" using Nil assms(1) [of t] by (cases t) simp
  moreover have "list_all (\<lambda>(c, child). kflags child) (k_children (g t))"
    using Nil assms(2) [of t] by (cases t) simp
  ultimately show ?case by (cases "g t") simp
next
  case (Cons c cs)
  define child where "child = (case map_of (k_children t) c of None \<Rightarrow> KeyTrieNode_init | Some n \<Rightarrow> n)"
  define X where "X = updateKeyNode cs g child"
  have "kflags child"
    using Cons.prems by (auto simp: child_def kflags_init kflags_child split: option.splits)
  from Cons.IH [OF this] have X: "kflags X" by (simp add: X_def)
  have upd: "updateKeyNode (c # cs) g t =
      KeyTrieNode (AList.update c X (k_children t)) (isEndOfKey t) (valueTrie t) (fullKey t)"
    by (simp add: X_def child_def Let_def)
  have "list_all (\<lambda>(c, child). kflags child) (k_children t)" "kflag t"
    using Cons.prems by (cases t, simp)+
  then have "list_all (\<lambda>(c, child). kflags child) (AList.update c X (k_children t))"
    "kflag (KeyTrieNode (AList.update c X (k_children t)) (isEndOfKey t) (valueTrie t) (fullKey t))"
    using X by (auto intro: list_all_update simp: kflag_def)
  then show ?case unfolding upd by simp
qed

lemma markKeys_kflags:
  "kflags t \<Longrightarrow> kflags (markKeys True s t ps)"
  unfolding markKeys_def
proof (induction ps arbitrary: t)
  case Nil
  then show ?case by simp
next
  case (Cons p ps)
  have "kflags (updateKeyNode p (markEndOfKey True s) t)"
    by (rule kflags_update [OF _ markEndOfKey_children Cons.prems])
       (auto simp: kflag_def markEndOfKey_def ValueTrie_init_def split: option.splits)
  from Cons.IH [OF this] show ?case by simp
qed

subsection \<open>Indexing one record\<close>

lemma indexRecord_recorded:
  assumes "kflags (k_root kt)" and "k_useSuffixTreeMode kt"
  shows "kflags (k_root (indexRecord True kt key val i))"
    and "k_useSuffixTreeMode (indexRecord True kt key val i)"
    and "keyRecorded i key val (k_root (indexRecord True kt key val i))"
    and "keyRecorded j k v (k_root kt) \<Longrightarrow> keyRecorded j k v (k_root (indexRecord True kt key val i))"
proof -
  define V where "V = (\<lambda>vt. insertValueWithSuffixMode vt val i)"
  define ps where "ps = key # substrings_from key"
  define R where "R = markKeys True key (k_root kt) ps"
  have root: "k_root (indexRecord True kt key val i) = updateKeyNode key (onValueTrie V) R"
    by (simp add: indexRecord_root V_def R_def ps_def keyPaths_def assms(2))
  have ps: "\<forall>p \<in> set ps. suffix p key"
    by (auto simp: ps_def dest: substrings_suffix)
  have flagsR: "kflags R"
    unfolding R_def by (rule markKeys_kflags [OF assms(1)])
  show "kflags (k_root (indexRecord True kt key val i))"
    unfolding root
    by (rule kflags_update [OF _ onValueTrie_children flagsR])
       (auto simp: kflag_def onValueTrie_def V_def insertValueWithSuffixMode_flag split: option.splits)
  show "k_useSuffixTreeMode (indexRecord True kt key val i)"
    by (simp add: indexRecord_root assms(2))
  have "keyMarked key R key"
    unfolding R_def by (rule markKeys_marked) (simp add: ps_def)
  then obtain n where n: "keyNodeAt key R = Some n" "keyTerminal key n"
    by (auto simp: keyMarked_def split: option.splits)
  then obtain vt where vt: "valueTrie n = Some vt" by (auto simp: keyTerminal_def)
  have "kflag n" using kflags_at [OF flagsR n(1)] .
  with vt have flag: "v_useSuffixTreeMode vt" by (simp add: kflag_def)
  have "valueRecorded i val (v_root (V vt))"
    unfolding V_def by (rule insertValueWithSuffixMode_recorded) simp
  then have "keyHolds i key val (onValueTrie V n)"
    using n(2) vt flag
    by (simp add: keyHolds_def keyTerminal_def onValueTrie_def V_def insertValueWithSuffixMode_flag)
  then show "keyRecorded i key val (k_root (indexRecord True kt key val i))"
    unfolding root keyRecorded_def by (simp add: keyNodeAt_update_same [OF n(1)])
  assume "keyRecorded j k v (k_root kt)"
  then have "keyRecorded j k v R"
    unfolding R_def by (rule markKeys_recorded [OF ps])
  then show "keyRecorded j k v (k_root (indexRecord True kt key val i))"
    unfolding root
    by (rule keyRecorded_onValueTrie [rotated 2])
       (simp_all add: V_def insertValueWithSuffixMode_flag insertValueWithSuffixMode_recorded)
qed

subsection \<open>Indexing a sequence of records\<close>

lemma insertRecords_recorded:
  "useSuffixTreeMode (client (insertRecords (idioms_init True) rs)) \<and>
   k_useSuffixTreeMode (keyTrie (client (insertRecords (idioms_init True) rs))) \<and>
   kflags (k_root (keyTrie (client (insertRecords (idioms_init True) rs)))) \<and>
   (\<forall>k v i. (k, v, i) \<in> set rs \<longrightarrow>
      keyRecorded i k v (k_root (keyTrie (client (insertRecords (idioms_init True) rs)))))"
proof (induction rs rule: rev_induct)
  case Nil
  show ?case
    by (simp add: insertRecords_def idioms_init_def IdiomsClient_init_def KeyTrie_init_def
        kflags_init)
next
  case (snoc r rs)
  obtain k v i where r: "r = (k, v, i)" by (cases r)
  define st where "st = insertRecords (idioms_init True) rs"
  have u: "useSuffixTreeMode (client st)"
    and m: "k_useSuffixTreeMode (keyTrie (client st))"
    and flags: "kflags (k_root (keyTrie (client st)))"
    and old: "\<And>k v i. (k, v, i) \<in> set rs \<Longrightarrow> keyRecorded i k v (k_root (keyTrie (client st)))"
    using snoc by (simp_all add: st_def)
  have nxt: "insertRecords (idioms_init True) (rs @ [r]) = create_md_index st k v i"
    by (simp add: r insertRecords_snoc st_def)
  have kt: "keyTrie (client (create_md_index st k v i)) = indexRecord True (keyTrie (client st)) k v i"
    and u': "useSuffixTreeMode (client (create_md_index st k v i))"
    using u by (simp_all add: create_md_index_def)
  show ?case
    unfolding nxt kt
    using indexRecord_recorded [OF flags m, where key = k and val = v and i = i] old u'
    by (auto simp: r)
qed

lemma insertRecords_triples:
  "triples (objectMetadata (insertRecords st rs))
     = triples (objectMetadata st) \<union> {(i, k, v). (k, v, i) \<in> set rs}"
proof (induction rs rule: rev_induct)
  case Nil
  show ?case by (simp add: insertRecords_def)
next
  case (snoc r rs)
  obtain k v i where r: "r = (k, v, i)" by (cases r)
  have "triples (objectMetadata (create_md_index (insertRecords st rs) k v i))
      = insert (i, k, v) (triples (objectMetadata (insertRecords st rs)))"
    by (simp add: create_md_index_def triples_push)
  with snoc show ?case
    unfolding r insertRecords_snoc by auto
qed

lemma classifyPart_nonempty:
  "classifyPart p = Some (shape, part) \<Longrightarrow> shape = SUFFIX \<or> shape = INFIX \<Longrightarrow> part \<noteq> []"
proof -
  assume c: "classifyPart p = Some (shape, part)" and s: "shape = SUFFIX \<or> shape = INFIX"
  show "part \<noteq> []"
  proof (cases p)
    case Nil
    with c show ?thesis by (simp add: classifyPart_def)
  next
    case (Cons a rest)
    show ?thesis
    proof (cases rest)
      case Nil
      with c s Cons show ?thesis
        by (auto simp: classifyPart_def split: if_splits)
    next
      case (Cons b rest')
      with c s \<open>p = a # rest\<close> show ?thesis
        by (auto simp: classifyPart_def split: if_splits)
    qed
  qed
qed

lemma classifyPart_not_empty:
  "classifyPart p \<noteq> Some (SUFFIX, [])" "classifyPart p \<noteq> Some (INFIX, [])"
  using classifyPart_nonempty by blast+

lemma parse_nonempty:
  assumes "parseQueryCondition queryStr = Some condition"
  shows "keyType condition = SUFFIX \<or> keyType condition = INFIX \<Longrightarrow> keyPart condition \<noteq> []"
    and "valueType condition = SUFFIX \<or> valueType condition = INFIX \<Longrightarrow> valuePart condition \<noteq> []"
  using assms
  by (auto simp: parseQueryCondition_def classifyPart_not_empty split: option.splits)

lemma nonempty_match:
  "shape = SUFFIX \<or> shape = INFIX \<Longrightarrow> part \<noteq> [] \<Longrightarrow> designPredicate shape part str \<Longrightarrow> str \<noteq> []"
  by (auto simp: ends_with_iff)

lemma value_found:
  assumes "valueRecorded i v (v_root vt)" and "v_useSuffixTreeMode vt"
    and "designPredicate shape part v"
    and "shape = SUFFIX \<or> shape = INFIX \<Longrightarrow> part \<noteq> []"
  shows "i \<in> set (valueSearch vt shape part)"
proof -
  from assms(1) obtain m where m: "valueNodeAt v (v_root vt) = Some m" "isEndOfValue m"
    "i \<in> set (objectIds m)" "suffix v (fullValue m)"
    by (auto simp: valueRecorded_def valueHolds_def split: option.splits)
  show ?thesis
  proof (cases shape)
    case EXACT
    with assms(3) m show ?thesis by (simp add: searchExactValue_def)
  next
    case PREFIX
    with assms(3) value_in_prefix [OF m(1-3)] show ?thesis by (simp add: searchValuePrefix_def)
  next
    case SUFFIX
    with assms(3,4) have "v \<noteq> []" "ends_with v part" by (auto simp: ends_with_iff)
    with m(4) have "fullValue m \<noteq> []" "ends_with (fullValue m) part"
      by (auto intro: ends_with_longer)
    with value_in_suffix [OF m(1-3)] SUFFIX assms(2) show ?thesis
      by (simp add: searchValueSuffix_def)
  next
    case INFIX
    with assms(3,4) have "v \<noteq> []" "contains v part" by auto
    with m(4) have "fullValue m \<noteq> []" "contains (fullValue m) part"
      by (auto intro: contains_longer)
    with value_in_infix [OF m(1-3)] INFIX assms(2) show ?thesis
      by (simp add: searchValueInfix_def)
  next
    case WILDCARD
    with value_in_collect [OF m(1-3)] show ?thesis by (simp add: getAllObjectIds_def)
  qed
qed

lemma key_found:
  assumes "keyRecorded i k v (k_root kt)" and "k_useSuffixTreeMode kt"
    and "designPredicate shape part k"
    and "shape = SUFFIX \<or> shape = INFIX \<Longrightarrow> part \<noteq> []"
  shows "\<exists>vt \<in> set (keySearch kt shape part).
           v_useSuffixTreeMode vt \<and> valueRecorded i v (v_root vt)"
proof -
  from assms(1) obtain n vt where n: "keyNodeAt k (k_root kt) = Some n" "isEndOfKey n"
    "valueTrie n = Some vt" and full: "suffix k (fullKey n)"
    and vt: "v_useSuffixTreeMode vt" "valueRecorded i v (v_root vt)"
    by (auto simp: keyRecorded_def keyHolds_def split: option.splits)
  have "vt \<in> set (keySearch kt shape part)"
  proof (cases shape)
    case EXACT
    with assms(3) n show ?thesis by (simp add: searchExactKey_def valueTrieOf_def)
  next
    case PREFIX
    with assms(3) key_in_prefix [OF n] show ?thesis by (simp add: searchKeyPrefix_def)
  next
    case SUFFIX
    with assms(3,4) have "k \<noteq> []" "ends_with k part" by (auto simp: ends_with_iff)
    with full have "fullKey n \<noteq> []" "ends_with (fullKey n) part"
      by (auto intro: ends_with_longer)
    with key_in_suffix [OF n] SUFFIX assms(2) show ?thesis
      by (simp add: searchKeySuffix_def)
  next
    case INFIX
    with assms(3,4) have "k \<noteq> []" "contains k part" by auto
    with full have "fullKey n \<noteq> []" "contains (fullKey n) part"
      by (auto intro: contains_longer)
    with key_in_infix [OF n] INFIX assms(2) show ?thesis
      by (simp add: searchKeyInfix_def)
  next
    case WILDCARD
    with key_in_collect [OF n] show ?thesis by (simp add: getAllValueTries_def)
  qed
  with vt show ?thesis by blast
qed

lemma scan_complete:
  assumes "parseQueryCondition queryStr = Some condition"
  shows "set (map fst (filter (\<lambda>(objectId, pairs).
                   list_ex (\<lambda>(key, val).
                       designPredicate (keyType condition) (keyPart condition) key \<and>
                       designPredicate (valueType condition) (valuePart condition) val) pairs)
                 (objectMetadata (insertRecords (idioms_init True) records))))
     \<subseteq> set (concat (map (\<lambda>vt. valueSearch vt (valueType condition) (valuePart condition))
             (keySearch (keyTrie (client (insertRecords (idioms_init True) records)))
                (keyType condition) (keyPart condition))))"
proof
  fix i
  define st where "st = insertRecords (idioms_init True) records"
  assume "i \<in> set (map fst (filter (\<lambda>(objectId, pairs).
                   list_ex (\<lambda>(key, val).
                       designPredicate (keyType condition) (keyPart condition) key \<and>
                       designPredicate (valueType condition) (valuePart condition) val) pairs)
                 (objectMetadata (insertRecords (idioms_init True) records))))"
  then obtain k v where kv: "(i, k, v) \<in> triples (objectMetadata st)"
    "designPredicate (keyType condition) (keyPart condition) k"
    "designPredicate (valueType condition) (valuePart condition) v"
    unfolding scan_set st_def by blast
  have "triples (objectMetadata (idioms_init True)) = {}"
    by (simp add: idioms_init_def triples_def)
  then have "triples (objectMetadata st) = {(i, k, v). (k, v, i) \<in> set records}"
    unfolding st_def insertRecords_triples by simp
  with kv(1) have "(k, v, i) \<in> set records" by simp
  with insertRecords_recorded [of records]
  have mode: "k_useSuffixTreeMode (keyTrie (client st))"
    and rec: "keyRecorded i k v (k_root (keyTrie (client st)))"
    by (auto simp: st_def)
  from key_found [OF rec mode kv(2) parse_nonempty(1) [OF assms]]
  obtain vt where vt: "vt \<in> set (keySearch (keyTrie (client st)) (keyType condition) (keyPart condition))"
    "v_useSuffixTreeMode vt" "valueRecorded i v (v_root vt)"
    by blast
  from value_found [OF vt(3,2) kv(3) parse_nonempty(2) [OF assms]] vt(1)
  show "i \<in> set (concat (map (\<lambda>vt. valueSearch vt (valueType condition) (valuePart condition))
             (keySearch (keyTrie (client (insertRecords (idioms_init True) records)))
                (keyType condition) (keyPart condition))))"
    unfolding st_def by auto
qed

lemma designPredicate_star_free:
  "shape = PREFIX \<longrightarrow> CHR ''*'' \<notin> set part
   \<Longrightarrow> designPredicate shape part str = shapePredicate shape part str"
  by (cases shape) (simp_all add: pmatch_starts_with)

lemma scanWith_star_free:
  assumes "parseQueryCondition queryStr = Some condition"
    and "keyType condition = PREFIX \<longrightarrow> CHR ''*'' \<notin> set (keyPart condition)"
    and "valueType condition = PREFIX \<longrightarrow> CHR ''*'' \<notin> set (valuePart condition)"
  shows "scanWith designPredicate md queryStr = bruteForceScan md queryStr"
  by (simp add: scanWith_def bruteForceScan_def assms designPredicate_star_free)

subsection \<open>The search and the brute-force scan\<close>

text \<open>
  A client in suffix-tree mode has indexed any sequence of records, and \<^verbatim>\<open>md_search\<close> gets a
  query whose key portion and value portion are not empty (any of the five shapes in
  either position). Then \<^verbatim>\<open>md_search\<close> returns a sorted vector without repetitions, and:
  \<^item> every object id that the brute-force scan of the inserted metadata finds is in that
    vector, where the scan tests a prefix pattern with the match of the trie (a \<^verbatim>\<open>*\<close>
    inside the pattern stands for any one character) and the other shapes with equality,
    ends-with, contains and always-true;
  \<^item> the vector is exactly the result of that scan when the value pattern is \<^verbatim>\<open>*\<close> and the
    key pattern is exact, a prefix or \<^verbatim>\<open>*\<close>;
  \<^item> that scan is the scan with starts-with for a prefix pattern that has no \<^verbatim>\<open>*\<close> inside.
\<close>

lemma md_search_correct:
  assumes "parseQueryCondition queryStr = Some condition"
  shows "\<exists>found scanned.
           md_search (client (insertRecords (idioms_init True) records)) queryStr = Some found \<and>
           sorted found \<and> distinct found \<and>
           scanWith designPredicate (objectMetadata (insertRecords (idioms_init True) records)) queryStr
             = Some scanned \<and>
           set scanned \<subseteq> set found \<and>
           (valueType condition = WILDCARD \<and>
            (keyType condition = EXACT \<or> keyType condition = PREFIX \<or> keyType condition = WILDCARD)
            \<longrightarrow> found = scanned) \<and>
           ((keyType condition = PREFIX \<longrightarrow> CHR ''*'' \<notin> set (keyPart condition)) \<and>
            (valueType condition = PREFIX \<longrightarrow> CHR ''*'' \<notin> set (valuePart condition))
            \<longrightarrow> bruteForceScan (objectMetadata (insertRecords (idioms_init True) records)) queryStr
                  = Some scanned)"
proof -
  define st where "st = insertRecords (idioms_init True) records"
  define ids where "ids = concat (map (\<lambda>vt. valueSearch vt (valueType condition) (valuePart condition))
             (keySearch (keyTrie (client st)) (keyType condition) (keyPart condition)))"
  define found where "found = sort (remdups ids)"
  have found: "md_search (client st) queryStr = Some found"
    by (simp add: md_search_def assms Let_def found_def ids_def)
  have found_set: "set found = set ids" and ordered: "sorted found" "distinct found"
    by (simp_all add: found_def)
  obtain scanned where scanned: "scanWith designPredicate (objectMetadata st) queryStr = Some scanned"
    "set scanned = set (map fst (filter (\<lambda>(objectId, pairs).
                   list_ex (\<lambda>(key, val).
                       designPredicate (keyType condition) (keyPart condition) key \<and>
                       designPredicate (valueType condition) (valuePart condition) val) pairs)
                 (objectMetadata st)))"
    by (simp add: scanWith_def assms)
  have "set scanned \<subseteq> set found"
    unfolding found_set ids_def scanned(2) st_def by (rule scan_complete [OF assms])
  moreover have "found = scanned"
    if "valueType condition = WILDCARD"
      "keyType condition = EXACT \<or> keyType condition = PREFIX \<or> keyType condition = WILDCARD"
    using md_search_equals_scan [OF assms that, of records] found scanned(1)
    by (simp add: st_def)
  moreover have "bruteForceScan (objectMetadata st) queryStr = Some scanned"
    if "keyType condition = PREFIX \<longrightarrow> CHR ''*'' \<notin> set (keyPart condition)"
      "valueType condition = PREFIX \<longrightarrow> CHR ''*'' \<notin> set (valuePart condition)"
    using scanWith_star_free [OF assms that, of "objectMetadata st"] scanned(1) by simp
  ultimately show ?thesis
    using found ordered scanned(1) unfolding st_def by blast
qed

text \<open>
  At the prefix query \<^verbatim>\<open>Stage*=*\<close> after three records, the search and both scans return the
  objects 1 and 2.
\<close>

lemma md_search_correct_at_prefix_query:
  "parseQueryCondition ''Stage*=*'' =
     Some \<lparr> keyPart = ''Stage'', valuePart = ''*'', keyType = PREFIX, valueType = WILDCARD \<rparr> \<and>
   md_search (client (insertRecords (idioms_init True)
       [(''StageX'', ''300.00'', 1), (''StageY'', ''400.00'', 2), (''Other'', ''300.00'', 3)]))
     ''Stage*=*'' = Some [1, 2] \<and>
   scanWith designPredicate (objectMetadata (insertRecords (idioms_init True)
       [(''StageX'', ''300.00'', 1), (''StageY'', ''400.00'', 2), (''Other'', ''300.00'', 3)]))
     ''Stage*=*'' = Some [1, 2] \<and>
   bruteForceScan (objectMetadata (insertRecords (idioms_init True)
       [(''StageX'', ''300.00'', 1), (''StageY'', ''400.00'', 2), (''Other'', ''300.00'', 3)]))
     ''Stage*=*'' = Some [1, 2]"
proof -
  have parse: "parseQueryCondition ''Stage*=*'' =
     Some \<lparr> keyPart = ''Stage'', valuePart = ''*'', keyType = PREFIX, valueType = WILDCARD \<rparr>"
    by code_simp
  have run: "md_search (client (insertRecords (idioms_init True)
       [(''StageX'', ''300.00'', 1), (''StageY'', ''400.00'', 2), (''Other'', ''300.00'', 3)]))
     ''Stage*=*'' = Some [1, 2]"
    by code_simp
  from md_search_correct [OF parse,
      of "[(''StageX'', ''300.00'', 1), (''StageY'', ''400.00'', 2), (''Other'', ''300.00'', 3)]"]
  show ?thesis
    using parse run by auto
qed

text \<open>
  A \<^verbatim>\<open>*\<close> inside a prefix pattern: at the query \<^verbatim>\<open>a*b*=*\<close> after the one record
  \<open>(axb, v, 1)\<close> the key pattern is the prefix \<^verbatim>\<open>a*b\<close>, the trie takes its inner \<^verbatim>\<open>*\<close> for any
  one character (the branch \<^verbatim>\<open>if (c == '*')\<close> of \<^verbatim>\<open>searchByKeyPrefix\<close>) and returns object 1,
  and no inserted key starts with \<^verbatim>\<open>a*b\<close>.
\<close>

lemma md_search_inner_star:
  "md_search (client (create_md_index (idioms_init True) ''axb'' ''v'' 1)) ''a*b*=*'' = Some [1] \<and>
   bruteForceScan (objectMetadata (create_md_index (idioms_init True) ''axb'' ''v'' 1)) ''a*b*=*''
     = Some []"
  by code_simp
section \<open>Properties of the trie-based server\<close>

text \<open>
  Claim C2 at the server with id 1 in suffix-tree mode after the one call
  \<open>addIndexedKey (k, v, 1)\<close>. The call returns, the server answers the query \<^verbatim>\<open>k=v\<close> with
  object 1, and \<^verbatim>\<open>checkpointIndex\<close> returns true and writes the file shown. On a fresh
  server with the same id and mode, \<^verbatim>\<open>recoverIndex\<close> on that file does not return:
  it owns \<^verbatim>\<open>indexMutex\<close> when, for the first pair it has read, it calls \<^verbatim>\<open>addIndexedKey\<close>,
  whose first statement locks \<^verbatim>\<open>indexMutex\<close> again. So there is no recovered server, and no
  flag, for the claim to speak of.
\<close>

theorem recoverIndex_relocks_indexMutex:
  "(case addIndexedKey (DistributedIdiomsServer_init 1 True) ''k'' ''v'' 1 of
      Inl e \<Rightarrow> False
    | Inr s \<Rightarrow>
        executeQuery s ''k=v'' = Some [1] \<and>
        checkpointIndex s True None =
          Inr (True, Some (''IDIOMS_INDEX_V1'' @ [newline] @ ''1 1'' @ [newline] @
                           ''1'' @ [newline] @ ''1 1'' @ [newline] @
                           ''k'' @ [newline] @ ''v'' @ [newline]))) \<and>
   recoverIndex (DistributedIdiomsServer_init 1 True)
     (Some (''IDIOMS_INDEX_V1'' @ [newline] @ ''1 1'' @ [newline] @
            ''1'' @ [newline] @ ''1 1'' @ [newline] @
            ''k'' @ [newline] @ ''v'' @ [newline]))
     = Inl Relock"
  by code_simp

text \<open>
  A file without a record is recovered: \<^verbatim>\<open>recoverIndex\<close> returns true and leaves the fresh
  server, with its mutex unlocked.
\<close>

lemma recoverIndex_empty_file:
  "checkpointIndex (DistributedIdiomsServer_init 1 True) True None =
     Inr (True, Some (''IDIOMS_INDEX_V1'' @ [newline] @ ''1 1'' @ [newline] @ ''0'' @ [newline])) \<and>
   recoverIndex (DistributedIdiomsServer_init 1 True)
     (Some (''IDIOMS_INDEX_V1'' @ [newline] @ ''1 1'' @ [newline] @ ''0'' @ [newline]))
     = Inr (True, DistributedIdiomsServer_init 1 True)"
  by code_simp

text \<open>
  Whatever the file, \<^verbatim>\<open>recoverIndex\<close> replays no record: every call of \<^verbatim>\<open>addIndexedKey\<close>
  inside it meets the owned mutex, so when \<^verbatim>\<open>recoverIndex\<close> returns true the server it
  leaves has no metadata and an empty trie.
\<close>

lemma addIndexedKey_locked:
  "indexMutex s \<Longrightarrow> addIndexedKey s key val objectId = Inl Relock"
  by (simp add: addIndexedKey_def lock_guard_def)

lemma readPairs_locked:
  "indexMutex s \<Longrightarrow> readPairs j objectId st s = Inr (st', s') \<Longrightarrow> s' = s"
  by (cases j) (auto simp: addIndexedKey_locked split: prod.splits)

lemma readObjects_locked:
  "indexMutex s \<Longrightarrow> readObjects n st s = Inr s' \<Longrightarrow> s' = s"
proof (induction n arbitrary: st)
  case 0
  then show ?case by simp
next
  case (Suc n)
  from Suc.prems(2) obtain oid mc st3 st4 s1 where
    "readPairs (nat mc) oid st3 s = Inr (st4, s1)" "readObjects n st4 s1 = Inr s'"
    by (auto simp: Let_def split: prod.splits option.splits sum.splits)
  with readPairs_locked [OF Suc.prems(1)] Suc.IH [OF Suc.prems(1)] show ?case
    by blast
qed

lemma recoverIndex_replays_nothing:
  assumes "recoverIndex s disk = Inr (True, s')"
  shows "srv_objectMetadata s' = [] \<and> srv_keyTrie s' = KeyTrie_init (srv_useSuffixTreeMode s)"
proof -
  define s1 where "s1 = s\<lparr> indexMutex := True, srv_objectMetadata := [],
                          srv_keyTrie := KeyTrie_init (srv_useSuffixTreeMode s) \<rparr>"
  from assms obtain n st4 s2 where "readObjects n st4 s1 = Inr s2" "s' = unlock s2"
    by (auto simp: recoverIndex_def lock_guard_def Let_def s1_def
        split: if_splits option.splits prod.splits sum.splits)
  moreover have "indexMutex s1" by (simp add: s1_def)
  ultimately have "s' = unlock s1" using readObjects_locked by blast
  then show ?thesis by (simp add: s1_def unlock_def)
qed

text \<open>
  The answers of a server depend on the order of the \<^verbatim>\<open>addIndexedKey\<close> calls, since the
  full key stored at a terminal shared by a key and by a suffix of a longer key is the
  one written last. After the calls \<open>(ab, w, 1)\<close>, \<open>(b, v, 2)\<close>, \<open>(cd, y, 2)\<close>, \<open>(d, x, 1)\<close> the
  server answers the query \<^verbatim>\<open>*cd\<close> with object 2; after the same four calls grouped by
  object, the order in which \<^verbatim>\<open>checkpointIndex\<close> writes the pairs, it answers with the
  objects 1 and 2.
\<close>

lemma addIndexedKey_order_matters:
  "map_sum id (\<lambda>s. executeQuery s ''*cd'')
     (addIndexedKeys (DistributedIdiomsServer_init 1 True)
        [(''ab'', ''w'', 1), (''b'', ''v'', 2), (''cd'', ''y'', 2), (''d'', ''x'', 1)])
     = Inr (Some [2]) \<and>
   map_sum id (\<lambda>s. executeQuery s ''*cd'')
     (addIndexedKeys (DistributedIdiomsServer_init 1 True)
        [(''ab'', ''w'', 1), (''d'', ''x'', 1), (''b'', ''v'', 2), (''cd'', ''y'', 2)])
     = Inr (Some [1, 2])"
  by code_simp
end
